theory Spec2Isabelle
  imports Main
begin

section \<open>Data model of kinship.py\<close>

text \<open>
  A \<open>Person\<close> object is identified by a reference of type \<open>'r\<close>. Python compares and
  hashes \<open>Person\<close> objects by identity (the class defines neither \<open>__eq__\<close> nor
  \<open>__hash__\<close>), so a dictionary keyed by \<open>Person\<close> objects is a dictionary keyed by
  references. The objects live in a store, a partial map from references to their fields.
  A reference outside the domain of the store designates no object; no Python run
  produces one, and the model answers \<open>DanglingRef\<close> where it would have to read it.

  \<open>Family.__init__\<close> creates exactly one \<open>Person\<close> per key of \<open>dict["individuals"]\<close> and
  files it under that key in \<open>self.people\<close>: there the reference of an object is its name,
  and the \<open>people\<close> dictionary is the store.
\<close>

datatype error = KeyError | IndexError | DanglingRef

record 'r person =
  name :: string
  gender :: string
  parents :: "'r list"
  spouse :: "'r option"

type_synonym 'r store = "'r \<rightharpoonup> 'r person"

text \<open>
  A Python \<open>dict\<close> keeps its keys in insertion order: an association list with distinct
  keys. \<open>d[k] = v\<close> replaces the value in place when \<open>k\<close> is a key and appends otherwise.
\<close>

type_synonym ('k, 'v) pydict = "('k \<times> 'v) list"

definition keys :: "('k, 'v) pydict \<Rightarrow> 'k list" where
  "keys d = map fst d"

definition values_of :: "('k, 'v) pydict \<Rightarrow> 'v list" where
  "values_of d = map snd d"

fun setitem :: "('k, 'v) pydict \<Rightarrow> 'k \<Rightarrow> 'v \<Rightarrow> ('k, 'v) pydict" where
  "setitem [] k v = [(k, v)]"
| "setitem ((k', v') # d) k v = (if k' = k then (k, v) # d else (k', v') # setitem d k v)"

definition getitem :: "('k, 'v) pydict \<Rightarrow> 'k \<Rightarrow> error + 'v" where
  "getitem d k = (case map_of d k of None \<Rightarrow> Inl KeyError | Some v \<Rightarrow> Inr v)"

type_synonym 'r cdict = "('r, string) pydict"

subsection \<open>class Person\<close>

definition Person_init :: "string \<Rightarrow> string \<Rightarrow> 'r person" where
  "Person_init n g = \<lparr>name = n, gender = g, parents = [], spouse = None\<rparr>"

text \<open>
  \<open>add_parent\<close> and \<open>set_spouse\<close> mutate the object \<open>self\<close> refers to; a reference
  that designates no object has none to mutate.
\<close>

definition add_parent :: "'r store \<Rightarrow> 'r \<Rightarrow> 'r \<Rightarrow> 'r store" where
  "add_parent h self parent =
     (case h self of None \<Rightarrow> h
      | Some obj \<Rightarrow> h(self \<mapsto> obj\<lparr>parents := parents obj @ [parent]\<rparr>))"

definition set_spouse :: "'r store \<Rightarrow> 'r \<Rightarrow> 'r \<Rightarrow> 'r store" where
  "set_spouse h self sp =
     (case h self of None \<Rightarrow> h
      | Some obj \<Rightarrow> h(self \<mapsto> obj\<lparr>spouse := Some sp\<rparr>))"

subsection \<open>Person.connections\<close>

text \<open>
  The \<open>for parent in person.parents\<close> loop (lines 73-78), on the local state
  \<open>(cdict, queue)\<close>.
\<close>

fun visit_parents :: "string \<Rightarrow> 'r list \<Rightarrow> 'r cdict \<times> 'r list \<Rightarrow> 'r cdict \<times> 'r list" where
  "visit_parents personpath [] (cdict, queue) = (cdict, queue)"
| "visit_parents personpath (parent # ps) (cdict, queue) =
     (if parent \<in> set (keys cdict) then visit_parents personpath ps (cdict, queue)
      else visit_parents personpath ps
             (setitem cdict parent (personpath @ ''P''), queue @ [parent]))"

text \<open>The spouse test and step (lines 79-81).\<close>

fun visit_spouse :: "string \<Rightarrow> 'r option \<Rightarrow> 'r cdict \<times> 'r list \<Rightarrow> 'r cdict \<times> 'r list" where
  "visit_spouse personpath None (cdict, queue) = (cdict, queue)"
| "visit_spouse personpath (Some sp) (cdict, queue) =
     (if CHR ''S'' \<notin> set personpath \<and> sp \<notin> set (keys cdict)
      then (setitem cdict sp (personpath @ ''S''), queue @ [sp])
      else (cdict, queue))"

text \<open>
  The \<open>while len(queue) != 0\<close> loop (lines 70-81). It may run forever on an infinite
  store, so it is a partial function: \<open>None\<close> is "does not return". The store is passed
  through the loop and returned with the result, so that what the call does to the
  \<open>Person\<close> objects is part of its value.
\<close>

partial_function (option) bfs_loop ::
  "'r store \<Rightarrow> 'r cdict \<Rightarrow> 'r list \<Rightarrow> ((error + 'r cdict) \<times> 'r store) option" where
  "bfs_loop h cdict queue =
     (case queue of
        [] \<Rightarrow> Some (Inr cdict, h)
      | person # rest \<Rightarrow>
          (case getitem cdict person of
             Inl e \<Rightarrow> Some (Inl e, h)
           | Inr personpath \<Rightarrow>
               (case h person of
                  None \<Rightarrow> Some (Inl DanglingRef, h)
                | Some obj \<Rightarrow>
                    (case visit_spouse personpath (spouse obj)
                            (visit_parents personpath (parents obj) (cdict, rest)) of
                       (cdict', queue') \<Rightarrow> bfs_loop h cdict' queue'))))"

declare bfs_loop.simps [code]

definition connections :: "'r store \<Rightarrow> 'r \<Rightarrow> ((error + 'r cdict) \<times> 'r store) option" where
  "connections h self = bfs_loop h (setitem [] self '''') [self]"

subsection \<open>Person.relation_to\<close>

text \<open>
  The module \<open>relationships\<close> is not part of the sources at hand. Its dictionary
  \<open>relationships.relationships\<close>, from a combined code to a dictionary from gender to
  term, is a parameter of the model.
\<close>

type_synonym table = "string \<rightharpoonup> (string \<rightharpoonup> string)"

text \<open>
  The loop of lines 105-106. The two lookups raise \<open>KeyError\<close> on a missing key.
\<close>

fun build_lcr :: "'r cdict \<Rightarrow> 'r cdict \<Rightarrow> 'r list \<Rightarrow> 'r cdict \<Rightarrow> error + 'r cdict" where
  "build_lcr selfconnections personconnections [] lcr = Inr lcr"
| "build_lcr selfconnections personconnections (key # ks) lcr =
     (case getitem selfconnections key of
        Inl e \<Rightarrow> Inl e
      | Inr a \<Rightarrow>
          (case getitem personconnections key of
             Inl e \<Rightarrow> Inl e
           | Inr b \<Rightarrow>
               build_lcr selfconnections personconnections ks
                 (setitem lcr key (a @ '':'' @ b))))"

text \<open>
  Python's \<open>min(iterable, key = len)\<close> on a non-empty iterable: the first element is the
  candidate, and a later element replaces it only when it is strictly shorter.
\<close>

fun min_by_len :: "string \<Rightarrow> string list \<Rightarrow> string" where
  "min_by_len best [] = best"
| "min_by_len best (v # vs) =
     (if length v < length best then min_by_len v vs else min_by_len best vs)"

text \<open>The loop of lines 100-102.\<close>

definition sharedkeys :: "'r cdict \<Rightarrow> 'r cdict \<Rightarrow> 'r list" where
  "sharedkeys selfconnections personconnections =
     filter (\<lambda>key. key \<in> set (keys personconnections)) (keys selfconnections)"

text \<open>
  Lines 110-113: \<open>relationships.relationships[lcrpath][self.gender]\<close> raises \<open>KeyError\<close>
  when the entry of \<open>lcrpath\<close> has no term for the gender.
\<close>

definition lookup_term :: "table \<Rightarrow> 'r store \<Rightarrow> 'r \<Rightarrow> string \<Rightarrow> error + string option" where
  "lookup_term relationships h self lcrpath =
     (case relationships lcrpath of
        None \<Rightarrow> Inr (Some ''distant relative'')
      | Some entry \<Rightarrow>
          (case h self of
             None \<Rightarrow> Inl DanglingRef
           | Some obj \<Rightarrow>
               (case entry (gender obj) of
                  None \<Rightarrow> Inl KeyError
                | Some term \<Rightarrow> Inr (Some term))))"

text \<open>
  Lines 97-113, after the two calls of \<open>connections\<close>. The test of line 103 compares the
  bound method \<open>sharedkeys.__len__\<close> with \<open>0\<close> and is never true, so it has no branch
  here; the test of line 107 is the case of the empty list of values.
\<close>

definition resolve ::
  "table \<Rightarrow> 'r store \<Rightarrow> 'r \<Rightarrow> 'r cdict \<Rightarrow> 'r cdict \<Rightarrow> error + string option" where
  "resolve relationships h self selfconnections personconnections =
     (case build_lcr selfconnections personconnections
             (sharedkeys selfconnections personconnections) [] of
        Inl e \<Rightarrow> Inl e
      | Inr lcr \<Rightarrow>
          (case values_of lcr of
             [] \<Rightarrow> Inr None
           | v # vs \<Rightarrow> lookup_term relationships h self (min_by_len v vs)))"

definition relation_to ::
  "table \<Rightarrow> 'r store \<Rightarrow> 'r \<Rightarrow> 'r \<Rightarrow> ((error + string option) \<times> 'r store) option" where
  "relation_to relationships h self other =
     (case connections h self of
        None \<Rightarrow> None
      | Some (Inl e, h1) \<Rightarrow> Some (Inl e, h1)
      | Some (Inr selfconnections, h1) \<Rightarrow>
          (case connections h1 other of
             None \<Rightarrow> None
           | Some (Inl e, h2) \<Rightarrow> Some (Inl e, h2)
           | Some (Inr personconnections, h2) \<Rightarrow>
               Some (resolve relationships h2 self selfconnections personconnections, h2)))"

subsection \<open>class Family\<close>

text \<open>
  The argument of \<open>Family.__init__\<close>: the dictionary with the keys \<open>"individuals"\<close>
  (name to gender), \<open>"parents"\<close> (name to list of parent names) and \<open>"couples"\<close> (list of
  lists of names). The two inner dictionaries are association lists in iteration order;
  the loops over their keys, which look each key up again, are loops over their items.
\<close>

record dataset =
  individuals :: "(string, string) pydict"
  parents_of :: "(string, string list) pydict"
  couples :: "string list list"

text \<open>Lines 141-143.\<close>

fun init_people :: "(string, string) pydict \<Rightarrow> string store \<Rightarrow> string store" where
  "init_people [] people = people"
| "init_people ((key, g) # rest) people =
     init_people rest (people(key \<mapsto> Person_init key g))"

text \<open>Lines 146-148: \<open>self.people[parent]\<close> raises \<open>KeyError\<close> on an unknown name.\<close>

fun add_parents :: "string \<Rightarrow> string list \<Rightarrow> string store \<Rightarrow> error + string store" where
  "add_parents personobj [] people = Inr people"
| "add_parents personobj (parent # ps) people =
     (case people parent of
        None \<Rightarrow> Inl KeyError
      | Some parentobj \<Rightarrow> add_parents personobj ps (add_parent people personobj parent))"

text \<open>Lines 144-148.\<close>

fun link_parents :: "(string, string list) pydict \<Rightarrow> string store \<Rightarrow> error + string store" where
  "link_parents [] people = Inr people"
| "link_parents ((person, ps) # rest) people =
     (case people person of
        None \<Rightarrow> Inl KeyError
      | Some personobj \<Rightarrow>
          (case add_parents person ps people of
             Inl e \<Rightarrow> Inl e
           | Inr people' \<Rightarrow> link_parents rest people'))"

text \<open>
  Lines 149-156. \<open>pair[0]\<close> is read and looked up before \<open>pair[1]\<close> is read, and
  \<open>pair[1]\<close> raises \<open>IndexError\<close> on a list of one element.
\<close>

fun link_couples :: "string list list \<Rightarrow> string store \<Rightarrow> error + string store" where
  "link_couples [] people = Inr people"
| "link_couples (pair # rest) people =
     (if length pair \<noteq> 0 then
        (case pair of
           [] \<Rightarrow> Inl IndexError
         | personone # pair' \<Rightarrow>
             (case people personone of
                None \<Rightarrow> Inl KeyError
              | Some persononeobj \<Rightarrow>
                  (case pair' of
                     [] \<Rightarrow> Inl IndexError
                   | persontwo # pair'' \<Rightarrow>
                       (case people persontwo of
                          None \<Rightarrow> Inl KeyError
                        | Some persontwoobj \<Rightarrow>
                            link_couples rest
                              (set_spouse (set_spouse people personone persontwo)
                                 persontwo personone)))))
      else link_couples rest people)"

record family =
  people :: "string store"
  dict :: dataset

definition Family_init :: "dataset \<Rightarrow> error + family" where
  "Family_init d =
     (case link_parents (parents_of d) (init_people (individuals d) Map.empty) of
        Inl e \<Rightarrow> Inl e
      | Inr people1 \<Rightarrow>
          (case link_couples (couples d) people1 of
             Inl e \<Rightarrow> Inl e
           | Inr people2 \<Rightarrow> Inr \<lparr>people = people2, dict = d\<rparr>))"

text \<open>
  \<open>Family.relation\<close>: the two lookups in \<open>self.people\<close> raise \<open>KeyError\<close> on a name that is
  not registered.
\<close>

definition relation ::
  "table \<Rightarrow> family \<Rightarrow> string \<Rightarrow> string \<Rightarrow> ((error + string option) \<times> family) option" where
  "relation relationships fam name_one name_two =
     (case people fam name_one of
        None \<Rightarrow> Some (Inl KeyError, fam)
      | Some persononeobj \<Rightarrow>
          (case people fam name_two of
             None \<Rightarrow> Some (Inl KeyError, fam)
           | Some persontwoobj \<Rightarrow>
               (case relation_to relationships (people fam) name_one name_two of
                  None \<Rightarrow> None
                | Some (r, h) \<Rightarrow> Some (r, fam\<lparr>people := h\<rparr>))))"

section \<open>Notions of the specification\<close>

text \<open>
  A Python heap is finite and every reference in it designates an object: the stores the
  program can build are the finite, closed ones.
\<close>

definition closed :: "'r store \<Rightarrow> bool" where
  "closed h =
     (\<forall>r obj. h r = Some obj \<longrightarrow>
        set (parents obj) \<subseteq> dom h \<and> (\<forall>s. spouse obj = Some s \<longrightarrow> s \<in> dom h))"

definition wf_store :: "'r store \<Rightarrow> bool" where
  "wf_store h = (finite (dom h) \<and> closed h)"

text \<open>
  A path is a string of steps \<open>P\<close> (to a parent) and \<open>S\<close> (to the spouse);
  \<open>is_path h x p y\<close>: applying the steps of \<open>p\<close> in order from \<open>x\<close> can arrive at \<open>y\<close>.
\<close>

fun is_path :: "'r store \<Rightarrow> 'r \<Rightarrow> string \<Rightarrow> 'r \<Rightarrow> bool" where
  "is_path h x [] y = (x = y)"
| "is_path h x (c # cs) y =
     (case h x of
        None \<Rightarrow> False
      | Some obj \<Rightarrow>
          (if c = CHR ''P'' then (\<exists>z \<in> set (parents obj). is_path h z cs y)
           else if c = CHR ''S'' then
             (case spouse obj of None \<Rightarrow> False | Some z \<Rightarrow> is_path h z cs y)
           else False))"

definition spouse_steps :: "string \<Rightarrow> nat" where
  "spouse_steps p = length (filter (\<lambda>c. c = CHR ''S'') p)"

definition valid_path :: "'r store \<Rightarrow> 'r \<Rightarrow> string \<Rightarrow> 'r \<Rightarrow> bool" where
  "valid_path h x p y = (is_path h x p y \<and> spouse_steps p \<le> 1)"

text \<open>
  What one round of the \<open>while\<close> loop adds: \<open>ext\<close> are the entries appended to \<open>cdict\<close>
  when the person with the fields \<open>obj\<close> and the recorded path \<open>personpath\<close> is taken
  from the queue.
\<close>

definition extension :: "string \<Rightarrow> 'r person \<Rightarrow> 'r cdict \<Rightarrow> 'r cdict \<Rightarrow> bool" where
  "extension personpath obj cdict ext =
     (distinct (keys ext) \<and> set (keys ext) \<inter> set (keys cdict) = {} \<and>
      (\<forall>(k, p) \<in> set ext.
         (k \<in> set (parents obj) \<and> p = personpath @ ''P'') \<or>
         (spouse obj = Some k \<and> CHR ''S'' \<notin> set personpath \<and> p = personpath @ ''S'')) \<and>
      set (parents obj) \<subseteq> set (keys (cdict @ ext)) \<and>
      (CHR ''S'' \<notin> set personpath \<longrightarrow>
         (\<forall>w. spouse obj = Some w \<longrightarrow> w \<in> set (keys (cdict @ ext)))))"

subsection \<open>A family of six\<close>

text \<open>
  \<open>X\<close> is the child of \<open>A\<close>, \<open>A\<close> of \<open>B\<close>, \<open>B\<close> of \<open>Q\<close>; \<open>W\<close> is a child of \<open>Q\<close> too.
  \<open>X\<close> and \<open>W\<close> are a couple, and so are \<open>Q\<close> and \<open>R\<close>.
\<close>

definition six_dataset :: dataset where
  "six_dataset =
     \<lparr>individuals = [(''X'', ''f''), (''A'', ''m''), (''B'', ''f''), (''W'', ''m''),
                     (''Q'', ''f''), (''R'', ''m'')],
      parents_of = [(''X'', [''A'']), (''A'', [''B'']), (''B'', [''Q'']), (''W'', [''Q''])],
      couples = [[''X'', ''W''], [], [''Q'', ''R'']]\<rparr>"

definition six_store :: "string store" where
  "six_store =
     [''X'' \<mapsto> \<lparr>name = ''X'', gender = ''f'', parents = [''A''], spouse = Some ''W''\<rparr>,
      ''A'' \<mapsto> \<lparr>name = ''A'', gender = ''m'', parents = [''B''], spouse = None\<rparr>,
      ''B'' \<mapsto> \<lparr>name = ''B'', gender = ''f'', parents = [''Q''], spouse = None\<rparr>,
      ''W'' \<mapsto> \<lparr>name = ''W'', gender = ''m'', parents = [''Q''], spouse = Some ''X''\<rparr>,
      ''Q'' \<mapsto> \<lparr>name = ''Q'', gender = ''f'', parents = [], spouse = Some ''R''\<rparr>,
      ''R'' \<mapsto> \<lparr>name = ''R'', gender = ''m'', parents = [], spouse = Some ''Q''\<rparr>]"

text \<open>The combined code of a shared individual \<open>k\<close>: \<open>pathsA[k]:pathsB[k]\<close>.\<close>

definition combined :: "'r cdict \<Rightarrow> 'r cdict \<Rightarrow> 'r \<Rightarrow> string" where
  "combined pathsA pathsB k =
     (case map_of pathsA k of
        None \<Rightarrow> []
      | Some a \<Rightarrow> (case map_of pathsB k of None \<Rightarrow> [] | Some b \<Rightarrow> a @ '':'' @ b))"

text \<open>Any number of calls of \<open>connections\<close> and \<open>relation_to\<close>, one after the other.\<close>

datatype 'r call = Connections 'r | Relation_to 'r 'r

fun run_call :: "table \<Rightarrow> 'r store \<Rightarrow> 'r call \<Rightarrow> 'r store option" where
  "run_call relationships h (Connections x) = map_option snd (connections h x)"
| "run_call relationships h (Relation_to x y) = map_option snd (relation_to relationships h x y)"

fun run_calls :: "table \<Rightarrow> 'r store \<Rightarrow> 'r call list \<Rightarrow> 'r store option" where
  "run_calls relationships h [] = Some h"
| "run_calls relationships h (c # cs) =
     (case run_call relationships h c of
        None \<Rightarrow> None
      | Some h' \<Rightarrow> run_calls relationships h' cs)"

text \<open>Spouse links are symmetric.\<close>

definition spouse_symmetric :: "'r store \<Rightarrow> bool" where
  "spouse_symmetric h =
     (\<forall>a oa b. h a = Some oa \<longrightarrow> spouse oa = Some b \<longrightarrow>
        (\<exists>ob. h b = Some ob \<and> spouse ob = Some a))"

text \<open>
  The two individuals an entry of the couples list joins, and: any two entries that share
  an individual join the same two.
\<close>

definition couple_of :: "string list \<Rightarrow> string set" where
  "couple_of pair = set (take 2 pair)"

definition consistent_couples :: "string list list \<Rightarrow> bool" where
  "consistent_couples cs =
     (\<forall>p \<in> set cs. \<forall>q \<in> set cs. couple_of p \<inter> couple_of q \<noteq> {} \<longrightarrow> couple_of p = couple_of q)"

definition six_family :: family where
  "six_family = \<lparr>people = six_store, dict = six_dataset\<rparr>"

text \<open>Two persons, each the parent of the other.\<close>

definition cyclic_store :: "nat store" where
  "cyclic_store =
     [1 \<mapsto> \<lparr>name = ''a'', gender = ''f'', parents = [2], spouse = None\<rparr>,
      2 \<mapsto> \<lparr>name = ''b'', gender = ''m'', parents = [1], spouse = None\<rparr>]"

text \<open>Two individuals without parents or spouse.\<close>

definition strangers :: family where
  "strangers =
     \<lparr>people = [''U'' \<mapsto> Person_init ''U'' ''f'', ''V'' \<mapsto> Person_init ''V'' ''m''],
      dict = \<lparr>individuals = [(''U'', ''f''), (''V'', ''m'')], parents_of = [], couples = []\<rparr>\<rparr>"

text \<open>\<open>person.spouse\<close>, read through the reference of the person.\<close>

definition spouse_of :: "'r store \<Rightarrow> 'r \<Rightarrow> 'r option" where
  "spouse_of h r = (case h r of None \<Rightarrow> None | Some obj \<Rightarrow> spouse obj)"

text \<open>A dataset whose couples list names \<open>a\<close> twice, with two partners.\<close>

definition triangle_dataset :: dataset where
  "triangle_dataset =
     \<lparr>individuals = [(''a'', ''f''), (''b'', ''m''), (''c'', ''m'')],
      parents_of = [],
      couples = [[''a'', ''b''], [''a'', ''c'']]\<rparr>"

definition triangle_family :: family where
  "triangle_family =
     \<lparr>people =
        [''a'' \<mapsto> \<lparr>name = ''a'', gender = ''f'', parents = [], spouse = Some ''c''\<rparr>,
         ''b'' \<mapsto> \<lparr>name = ''b'', gender = ''m'', parents = [], spouse = Some ''a''\<rparr>,
         ''c'' \<mapsto> \<lparr>name = ''c'', gender = ''m'', parents = [], spouse = Some ''a''\<rparr>],
      dict = triangle_dataset\<rparr>"

text \<open>Datasets whose couples list has an entry of one name, registered or not.\<close>

definition single_dataset :: "string \<Rightarrow> dataset" where
  "single_dataset x =
     \<lparr>individuals = [(''a'', ''f''), (''b'', ''m'')],
      parents_of = [(''a'', [''b''])],
      couples = [[], [x], [''a'', ''b'']]\<rparr>"

text \<open>
  A parent path is a path of \<open>P\<close> steps only, and \<open>y\<close> is an ancestor of \<open>x\<close> when a
  parent path leads from \<open>x\<close> to \<open>y\<close>. Ancestors are closer by blood: every valid path with
  a spouse step from \<open>x\<close> to an ancestor of \<open>x\<close> is strictly longer than some parent path to
  that ancestor.
\<close>

definition parent_path :: "'r store \<Rightarrow> 'r \<Rightarrow> string \<Rightarrow> 'r \<Rightarrow> bool" where
  "parent_path h x p y = (is_path h x p y \<and> set p \<subseteq> {CHR ''P''})"

definition ancestors_closer_by_blood :: "'r store \<Rightarrow> 'r \<Rightarrow> bool" where
  "ancestors_closer_by_blood h x =
     (\<forall>u q. (\<exists>p. parent_path h x p u) \<longrightarrow> valid_path h x q u \<longrightarrow> CHR ''S'' \<in> set q \<longrightarrow>
        (\<exists>p. parent_path h x p u \<and> length p < length q))"

text \<open>
  The length of the path recorded for a key, and what holds of a key \<open>u\<close> once its round
  of the loop is over: its parents are keys, and so is its spouse when the path recorded
  for \<open>u\<close> has no \<open>S\<close>, each with a recorded path at most one step longer.
\<close>

definition plen :: "'r cdict \<Rightarrow> 'r \<Rightarrow> nat" where
  "plen cd k = (case map_of cd k of None \<Rightarrow> 0 | Some p \<Rightarrow> length p)"

definition explored :: "'r store \<Rightarrow> 'r cdict \<Rightarrow> 'r \<Rightarrow> bool" where
  "explored h cd u =
     (\<forall>obj pu. h u = Some obj \<longrightarrow> map_of cd u = Some pu \<longrightarrow>
        (\<forall>v \<in> set (parents obj). v \<in> set (keys cd) \<and> plen cd v \<le> length pu + 1) \<and>
        (CHR ''S'' \<notin> set pu \<longrightarrow>
           (\<forall>w. spouse obj = Some w \<longrightarrow> w \<in> set (keys cd) \<and> plen cd w \<le> length pu + 1)))"

definition bfs_inv :: "'r store \<Rightarrow> 'r cdict \<Rightarrow> 'r list \<Rightarrow> bool" where
  "bfs_inv h cd q =
     (sorted (map (plen cd) q) \<and>
      (\<forall>k \<in> set (keys cd). \<forall>f \<in> set q. plen cd k \<le> plen cd f + 1) \<and>
      (\<forall>u \<in> set (keys cd). u \<in> set q \<or> explored h cd u))"

text \<open>A child \<open>C\<close> of the couple \<open>M\<close> and \<open>F\<close>.\<close>

definition nuclear_store :: "string store" where
  "nuclear_store =
     [''C'' \<mapsto> \<lparr>name = ''C'', gender = ''f'', parents = [''M'', ''F''], spouse = None\<rparr>,
      ''M'' \<mapsto> \<lparr>name = ''M'', gender = ''f'', parents = [], spouse = Some ''F''\<rparr>,
      ''F'' \<mapsto> \<lparr>name = ''F'', gender = ''m'', parents = [], spouse = Some ''M''\<rparr>]"

section \<open>Dictionaries\<close>

lemma keys_setitem: "set (keys (setitem d k v)) = insert k (set (keys d))"
  by (induction d k v rule: setitem.induct) (auto simp: keys_def)

lemma setitem_new: "k \<notin> set (keys d) \<Longrightarrow> setitem d k v = d @ [(k, v)]"
  by (induction d k v rule: setitem.induct) (auto simp: keys_def)

lemma keys_append: "keys (d @ e) = keys d @ keys e"
  by (simp add: keys_def)

lemma map_of_keys: "(k \<in> set (keys d)) = (\<exists>v. map_of d k = Some v)"
  by (induction d) (auto simp: keys_def)

lemma getitem_Inr: "(getitem d k = Inr v) = (map_of d k = Some v)"
  by (simp add: getitem_def split: option.splits)

lemma map_of_old: "k \<in> set (keys d) \<Longrightarrow> map_of (d @ e) k = map_of d k"
  by (auto simp: map_of_keys map_add_def split: option.splits)

section \<open>One round of the loop\<close>

lemma visit_parents_char:
  "visit_parents pp ps (cd, q) = (cd', q') \<Longrightarrow>
   \<exists>new. cd' = cd @ map (\<lambda>k. (k, pp @ ''P'')) new \<and> q' = q @ new \<and> distinct new \<and>
         set new = set ps - set (keys cd)"
proof (induction ps arbitrary: cd q)
  case Nil
  then show ?case by simp
next
  case (Cons parent ps)
  show ?case
  proof (cases "parent \<in> set (keys cd)")
    case True
    with Cons.prems have "visit_parents pp ps (cd, q) = (cd', q')" by simp
    from Cons.IH [OF this] True show ?thesis by auto
  next
    case False
    with Cons.prems
    have "visit_parents pp ps (cd @ [(parent, pp @ ''P'')], q @ [parent]) = (cd', q')"
      by (simp add: setitem_new)
    from Cons.IH [OF this] obtain new where
      n: "cd' = (cd @ [(parent, pp @ ''P'')]) @ map (\<lambda>k. (k, pp @ ''P'')) new"
         "q' = (q @ [parent]) @ new" "distinct new"
         "set new = set ps - set (keys (cd @ [(parent, pp @ ''P'')]))"
      by blast
    have "cd' = cd @ map (\<lambda>k. (k, pp @ ''P'')) (parent # new)" using n(1) by simp
    moreover have "q' = q @ (parent # new)" using n(2) by simp
    moreover have "distinct (parent # new)" using n(3,4) by (auto simp: keys_def)
    moreover have "set (parent # new) = set (parent # ps) - set (keys cd)"
      using n(4) False by (auto simp: keys_def)
    ultimately show ?thesis by blast
  qed
qed

lemma visit_spouse_char:
  "visit_spouse pp sp (cd, q) = (cd', q') \<Longrightarrow>
   \<exists>new. cd' = cd @ map (\<lambda>k. (k, pp @ ''S'')) new \<and> q' = q @ new \<and> distinct new \<and>
         set new = (if CHR ''S'' \<in> set pp then {} else set_option sp - set (keys cd))"
proof (cases sp)
  case None
  assume "visit_spouse pp sp (cd, q) = (cd', q')"
  with None show ?thesis by (intro exI [of _ "[]"]) simp
next
  case (Some s)
  assume a: "visit_spouse pp sp (cd, q) = (cd', q')"
  show ?thesis
  proof (cases "CHR ''S'' \<notin> set pp \<and> s \<notin> set (keys cd)")
    case True
    with a Some show ?thesis by (intro exI [of _ "[s]"]) (auto simp: setitem_new)
  next
    case False
    with a Some show ?thesis by (intro exI [of _ "[]"]) auto
  qed
qed

lemma body_extension:
  assumes "visit_spouse pp (spouse obj) (visit_parents pp (parents obj) (cd, rest)) = (cd', q')"
  shows "\<exists>ext. cd' = cd @ ext \<and> q' = rest @ keys ext \<and> extension pp obj cd ext"
proof -
  obtain cd1 q1 where v1: "visit_parents pp (parents obj) (cd, rest) = (cd1, q1)"
    by (cases "visit_parents pp (parents obj) (cd, rest)")
  from visit_parents_char [OF v1] obtain n1 where
    n1: "cd1 = cd @ map (\<lambda>k. (k, pp @ ''P'')) n1" "q1 = rest @ n1" "distinct n1"
        "set n1 = set (parents obj) - set (keys cd)" by blast
  from assms v1 have v2: "visit_spouse pp (spouse obj) (cd1, q1) = (cd', q')" by simp
  from visit_spouse_char [OF v2] obtain n2 where
    n2: "cd' = cd1 @ map (\<lambda>k. (k, pp @ ''S'')) n2" "q' = q1 @ n2" "distinct n2"
        "set n2 = (if CHR ''S'' \<in> set pp then {} else set_option (spouse obj) - set (keys cd1))"
    by blast
  let ?ext = "map (\<lambda>k. (k, pp @ ''P'')) n1 @ map (\<lambda>k. (k, pp @ ''S'')) n2"
  have k: "keys ?ext = n1 @ n2" by (simp add: keys_def comp_def)
  have k1: "set (keys cd1) = set (keys cd) \<union> set n1" using n1(1) by (simp add: keys_def comp_def)
  have "cd' = cd @ ?ext" using n1 n2 by simp
  moreover have "q' = rest @ keys ?ext" using n1 n2 k by simp
  moreover have "extension pp obj cd ?ext"
    unfolding extension_def
    using n1(3,4) n2(3,4) k1 by (auto simp: keys_def comp_def split: if_splits)
  ultimately show ?thesis by blast
qed

section \<open>The loop returns, and keeps what each round keeps\<close>

text \<open>
  On a finite closed store the loop returns: the number of objects that are not yet keys
  of \<open>cdict\<close> plus the length of the queue goes down by one in every round. A property
  \<open>I\<close> of \<open>(cdict, queue)\<close> that every round keeps holds of the result.
\<close>

lemma extension_dom:
  assumes "extension pp obj cd ext" "closed h" "h person = Some obj"
  shows "set (keys ext) \<subseteq> dom h"
proof
  fix k assume "k \<in> set (keys ext)"
  then obtain p where "(k, p) \<in> set ext" by (auto simp: keys_def)
  with assms(1) have "k \<in> set (parents obj) \<or> spouse obj = Some k"
    by (auto simp: extension_def)
  with assms(2,3) show "k \<in> dom h" unfolding closed_def by blast
qed

lemma bfs_loop_rule:
  assumes fin: "finite (dom h)" and cl: "closed h"
    and q: "set q \<subseteq> set (keys cd)" and d: "set (keys cd) \<subseteq> dom h"
    and I: "I cd q"
    and step: "\<And>cd person rest pp obj ext.
       \<lbrakk>I cd (person # rest); set (person # rest) \<subseteq> set (keys cd); set (keys cd) \<subseteq> dom h;
        map_of cd person = Some pp; h person = Some obj; extension pp obj cd ext\<rbrakk>
       \<Longrightarrow> I (cd @ ext) (rest @ keys ext)"
  shows "\<exists>cd'. bfs_loop h cd q = Some (Inr cd', h) \<and> I cd' []"
  using q d I
proof (induction "card (dom h - set (keys cd)) + length q" arbitrary: cd q rule: less_induct)
  case less
  show ?case
  proof (cases q)
    case Nil
    with less.prems show ?thesis by (subst bfs_loop.simps) simp
  next
    case (Cons person rest)
    with less.prems have pk: "person \<in> set (keys cd)" by simp
    then obtain pp where pp: "map_of cd person = Some pp" by (auto simp: map_of_keys)
    from pk less.prems obtain obj where obj: "h person = Some obj" by blast
    obtain cd' q' where
      b: "visit_spouse pp (spouse obj) (visit_parents pp (parents obj) (cd, rest)) = (cd', q')"
      by (cases "visit_spouse pp (spouse obj) (visit_parents pp (parents obj) (cd, rest))")
    from body_extension [OF b] obtain ext where
      e: "cd' = cd @ ext" "q' = rest @ keys ext" "extension pp obj cd ext" by blast
    have sub: "set (keys ext) \<subseteq> dom h" by (rule extension_dom [OF e(3) cl obj])
    have dis: "distinct (keys ext)" "set (keys ext) \<inter> set (keys cd) = {}"
      using e(3) by (auto simp: extension_def)
    let ?A = "dom h - set (keys cd)"
    have finA: "finite ?A" using fin by simp
    have subA: "set (keys ext) \<subseteq> ?A" using sub dis by blast
    have "dom h - set (keys cd') = ?A - set (keys ext)" using e(1) by (auto simp: keys_def)
    then have "card (dom h - set (keys cd')) = card ?A - card (set (keys ext))"
      using subA finA by (simp add: card_Diff_subset)
    moreover have "card (set (keys ext)) = length (keys ext)"
      using dis(1) by (simp add: distinct_card)
    moreover have "card (set (keys ext)) \<le> card ?A" using subA finA by (simp add: card_mono)
    ultimately have m: "card (dom h - set (keys cd')) + length q' < card ?A + length q"
      using e(2) Cons by simp
    have q': "set q' \<subseteq> set (keys cd')" using less.prems(1) Cons e by (auto simp: keys_def)
    have d': "set (keys cd') \<subseteq> dom h" using less.prems(2) sub e(1) by (auto simp: keys_def)
    have "I cd' q'"
      unfolding e(1,2) using less.prems Cons pp obj e(3) by (intro step) auto
    from less.hyps [OF m q' d' this] obtain r where
      r: "bfs_loop h cd' q' = Some (Inr r, h)" "I r []" by blast
    have "bfs_loop h cd q = bfs_loop h cd' q'"
      using Cons pp obj b by (subst bfs_loop.simps) (simp add: getitem_def)
    with r show ?thesis by simp
  qed
qed

section \<open>The family of six\<close>

lemma six_store_wf: "wf_store six_store"
  unfolding wf_store_def closed_def
  by (auto simp: six_store_def split: if_splits)

lemma six_connections_X:
  "connections six_store ''X'' =
     Some (Inr [(''X'', ''''), (''A'', ''P''), (''W'', ''S''), (''B'', ''PP''), (''Q'', ''SP'')],
           six_store)"
proof -
  have "bfs_loop h [(''X'', '''')] [''X''] =
        Some (Inr [(''X'', ''''), (''A'', ''P''), (''W'', ''S''), (''B'', ''PP''), (''Q'', ''SP'')], h)"
    if "h = six_store" for h
    using that by (simp add: bfs_loop.simps getitem_def keys_def six_store_def)
  then show ?thesis by (simp add: connections_def)
qed

section \<open>Person.connections: the paths\<close>

lemma spouse_steps_P: "spouse_steps (p @ ''P'') = spouse_steps p"
  by (simp add: spouse_steps_def)

lemma spouse_steps_S: "CHR ''S'' \<notin> set p \<Longrightarrow> spouse_steps (p @ ''S'') = 1"
  by (induction p) (auto simp: spouse_steps_def)

lemma connections_spouse_steps:
  assumes "wf_store h" and "x \<in> dom h"
  shows "\<exists>cd. connections h x = Some (Inr cd, h) \<and> (\<forall>(y, p) \<in> set cd. spouse_steps p \<le> 1)"
proof -
  let ?I = "\<lambda>(cd :: 'a cdict) (q :: 'a list). \<forall>(y, p) \<in> set cd. spouse_steps p \<le> 1"
  have "\<exists>cd. bfs_loop h [(x, '''')] [x] = Some (Inr cd, h) \<and> ?I cd []"
  proof (rule bfs_loop_rule [where I = ?I])
    show "finite (dom h)" "closed h" using assms(1) by (simp_all add: wf_store_def)
    show "set [x] \<subseteq> set (keys [(x, '''')])" by (simp add: keys_def)
    show "set (keys [(x, '''')]) \<subseteq> dom h" using assms(2) by (simp add: keys_def)
    show "\<forall>(y, p) \<in> set [(x, '''')]. spouse_steps p \<le> 1" by (simp add: spouse_steps_def)
  next
    fix cd :: "'a cdict" and person rest pp obj ext
    assume inv: "\<forall>(y, p) \<in> set cd. spouse_steps p \<le> 1"
      and pp: "map_of cd person = Some pp" and ext: "extension pp obj cd ext"
    from pp have "(person, pp) \<in> set cd" by (rule map_of_SomeD)
    with inv have "spouse_steps pp \<le> 1" by auto
    with ext have "\<forall>(y, p) \<in> set ext. spouse_steps p \<le> 1"
      by (auto simp: extension_def spouse_steps_P spouse_steps_S)
    with inv show "\<forall>(y, p) \<in> set (cd @ ext). spouse_steps p \<le> 1" by auto
  qed
  then show ?thesis by (simp add: connections_def)
qed

text \<open>
  C4. For every start individual \<open>x\<close> of a finite closed store, \<open>connections\<close> returns a
  dictionary, and every path in it has at most one \<open>S\<close>.
\<close>

theorem C4_at_most_one_spouse_step:
  assumes "wf_store h" and "x \<in> dom h"
  shows "\<exists>cd. connections h x = Some (Inr cd, h) \<and> (\<forall>(y, p) \<in> set cd. spouse_steps p \<le> 1)"
  using assms by (rule connections_spouse_steps)

theorem C4_at_most_one_spouse_step_witness:
  "wf_store six_store \<and> ''X'' \<in> dom six_store \<and>
   (\<exists>cd. connections six_store ''X'' = Some (Inr cd, six_store) \<and>
         (\<forall>(y, p) \<in> set cd. spouse_steps p \<le> 1))"
proof -
  have x: "''X'' \<in> dom six_store" by (simp add: six_store_def)
  from C4_at_most_one_spouse_step [OF six_store_wf x] six_store_wf x show ?thesis by blast
qed

lemma connections_returns:
  assumes "wf_store h" and "x \<in> dom h"
  shows "\<exists>t. connections h x = Some (Inr ((x, '''') # t), h) \<and> distinct (keys ((x, '''') # t))"
proof -
  let ?I = "\<lambda>(cd :: 'a cdict) (q :: 'a list). (\<exists>t. cd = (x, '''') # t) \<and> distinct (keys cd)"
  have "\<exists>cd. bfs_loop h [(x, '''')] [x] = Some (Inr cd, h) \<and> ?I cd []"
  proof (rule bfs_loop_rule [where I = ?I])
    show "finite (dom h)" "closed h" using assms(1) by (simp_all add: wf_store_def)
    show "set [x] \<subseteq> set (keys [(x, '''')])" by (simp add: keys_def)
    show "set (keys [(x, '''')]) \<subseteq> dom h" using assms(2) by (simp add: keys_def)
    show "(\<exists>t. [(x, '''')] = (x, '''') # t) \<and> distinct (keys [(x, '''')])"
      by (simp add: keys_def)
  next
    fix cd :: "'a cdict" and person rest pp obj ext
    assume "(\<exists>t. cd = (x, '''') # t) \<and> distinct (keys cd)" and "extension pp obj cd ext"
    then show "(\<exists>t. cd @ ext = (x, '''') # t) \<and> distinct (keys (cd @ ext))"
      by (auto simp: extension_def keys_def)
  qed
  then show ?thesis by (auto simp: connections_def)
qed

text \<open>
  C7. \<open>connections\<close> returns on every finite closed store, whatever cycles the parent
  relation has. Its keys are in the order in which the individuals entered the queue (a
  round appends the same new keys to \<open>cdict\<close> and to the queue), and no key occurs
  twice: each individual entered the queue at most once.
\<close>

theorem C7_connections_terminates:
  assumes "finite (dom h)" and "closed h" and "x \<in> dom h"
  shows "\<exists>cd. connections h x = Some (Inr cd, h) \<and> distinct (keys cd)"
proof -
  from assms(1,2) have "wf_store h" by (simp add: wf_store_def)
  from connections_returns [OF this assms(3)] show ?thesis by blast
qed

lemma cyclic_store_wf: "wf_store cyclic_store"
  unfolding wf_store_def closed_def
  by (auto simp: cyclic_store_def split: if_splits)

theorem C7_connections_terminates_witness:
  "finite (dom cyclic_store) \<and> closed cyclic_store \<and> 1 \<in> dom cyclic_store \<and>
   is_path cyclic_store 1 ''PP'' 1 \<and>
   (\<exists>cd. connections cyclic_store 1 = Some (Inr cd, cyclic_store) \<and> distinct (keys cd))"
proof -
  have f: "finite (dom cyclic_store)" and c: "closed cyclic_store"
    using cyclic_store_wf by (simp_all add: wf_store_def)
  have x: "1 \<in> dom cyclic_store" by (simp add: cyclic_store_def)
  have p: "is_path cyclic_store 1 ''PP'' 1" by (simp add: cyclic_store_def)
  from C7_connections_terminates [OF f c x] f c x p show ?thesis by blast
qed

text \<open>
  C6. \<open>relation\<close> with a name that is not registered raises \<open>KeyError\<close>, the
  \<open>UnknownIndividual\<close> failure: it returns neither a term nor \<open>None\<close>.
\<close>

theorem C6_unknown_individual:
  assumes "people fam name_one = None \<or> people fam name_two = None"
  shows "relation relationships fam name_one name_two = Some (Inl KeyError, fam)"
  using assms by (auto simp: relation_def split: option.splits)

theorem C6_unknown_individual_witness:
  "(people six_family ''X'' = None \<or> people six_family ''Zed'' = None) \<and>
   relation Map.empty six_family ''X'' ''Zed'' = Some (Inl KeyError, six_family)"
proof -
  have "people six_family ''X'' = None \<or> people six_family ''Zed'' = None"
    by (simp add: six_family_def six_store_def)
  with C6_unknown_individual [of six_family "''X''" "''Zed''" Map.empty] show ?thesis by blast
qed

section \<open>Person.relation_to\<close>

lemma build_lcr_ok:
  assumes "distinct ks" and "set ks \<subseteq> set (keys sc) \<inter> set (keys pc)"
    and "set ks \<inter> set (keys lcr) = {}"
  shows "build_lcr sc pc ks lcr = Inr (lcr @ map (\<lambda>k. (k, combined sc pc k)) ks)"
  using assms
proof (induction ks arbitrary: lcr)
  case Nil
  then show ?case by simp
next
  case (Cons key ks)
  from Cons.prems(2) obtain a b where ab: "map_of sc key = Some a" "map_of pc key = Some b"
    by (auto simp: map_of_keys)
  have new: "key \<notin> set (keys lcr)" using Cons.prems(3) by simp
  have "build_lcr sc pc ks (lcr @ [(key, a @ '':'' @ b)]) =
        Inr ((lcr @ [(key, a @ '':'' @ b)]) @ map (\<lambda>k. (k, combined sc pc k)) ks)"
    using Cons.prems by (intro Cons.IH) (auto simp: keys_def)
  then show ?case using ab new by (simp add: getitem_def setitem_new combined_def)
qed

lemma sharedkeys_set: "set (sharedkeys sc pc) = set (keys sc) \<inter> set (keys pc)"
  by (auto simp: sharedkeys_def)

lemma resolve_eq:
  assumes "distinct (keys sc)"
  shows "resolve rel h self sc pc =
         (case map (combined sc pc) (sharedkeys sc pc) of
            [] \<Rightarrow> Inr None
          | v # vs \<Rightarrow> lookup_term rel h self (min_by_len v vs))"
proof -
  have "distinct (sharedkeys sc pc)" using assms by (simp add: sharedkeys_def)
  then have "build_lcr sc pc (sharedkeys sc pc) [] =
        Inr ([] @ map (\<lambda>k. (k, combined sc pc k)) (sharedkeys sc pc))"
    by (intro build_lcr_ok) (auto simp: sharedkeys_set keys_def)
  then show ?thesis by (simp add: resolve_def values_of_def comp_def)
qed

lemma min_by_len_min:
  "min_by_len v vs \<in> set (v # vs) \<and> (\<forall>w \<in> set (v # vs). length (min_by_len v vs) \<le> length w)"
proof (induction vs arbitrary: v)
  case Nil
  show ?case by simp
next
  case (Cons u vs)
  from Cons [of u] Cons [of v] show ?case by (cases "length u < length v") auto
qed

lemma min_by_len_first: "\<forall>w \<in> set vs. length v \<le> length w \<Longrightarrow> min_by_len v vs = v"
  by (induction vs) auto

lemma lookup_term_not_None: "lookup_term rel h self c \<noteq> Inr None"
  by (simp add: lookup_term_def split: option.splits)

lemma relation_to_eq:
  assumes "wf_store h" and "a \<in> dom h" and "b \<in> dom h"
  shows "\<exists>ca cb. connections h a = Some (Inr ca, h) \<and> connections h b = Some (Inr cb, h) \<and>
           distinct (keys ca) \<and>
           relation_to rel h a b = Some (resolve rel h a ca cb, h)"
proof -
  from connections_returns [OF assms(1,2)] obtain ta where
    a: "connections h a = Some (Inr ((a, '''') # ta), h)" "distinct (keys ((a, '''') # ta))"
    by blast
  from connections_returns [OF assms(1,3)] obtain tb where
    b: "connections h b = Some (Inr ((b, '''') # tb), h)" by blast
  from a b show ?thesis by (simp add: relation_to_def)
qed

lemma resolve_None_iff:
  assumes "distinct (keys sc)"
  shows "(resolve rel h self sc pc = Inr None) = (set (keys sc) \<inter> set (keys pc) = {})"
proof (cases "sharedkeys sc pc")
  case Nil
  then have "set (sharedkeys sc pc) = {}" by simp
  then have "set (keys sc) \<inter> set (keys pc) = {}" unfolding sharedkeys_set .
  with Nil show ?thesis by (simp add: resolve_eq [OF assms])
next
  case (Cons k ks)
  then have "set (sharedkeys sc pc) \<noteq> {}" by simp
  then have "set (keys sc) \<inter> set (keys pc) \<noteq> {}" unfolding sharedkeys_set .
  with Cons show ?thesis
    by (auto simp: resolve_eq [OF assms] lookup_term_not_None)
qed

lemma relation_eq:
  assumes "wf_store (people fam)" and "name_one \<in> dom (people fam)"
    and "name_two \<in> dom (people fam)"
  shows "\<exists>ca cb. connections (people fam) name_one = Some (Inr ca, people fam) \<and>
           connections (people fam) name_two = Some (Inr cb, people fam) \<and>
           distinct (keys ca) \<and>
           relation rel fam name_one name_two =
             Some (resolve rel (people fam) name_one ca cb, fam)"
proof -
  from relation_to_eq [OF assms, of rel] obtain ca cb where
    c: "connections (people fam) name_one = Some (Inr ca, people fam)"
       "connections (people fam) name_two = Some (Inr cb, people fam)"
       "distinct (keys ca)"
       "relation_to rel (people fam) name_one name_two =
          Some (resolve rel (people fam) name_one ca cb, people fam)" by blast
  from assms(2,3) c(4)
  have "relation rel fam name_one name_two =
          Some (resolve rel (people fam) name_one ca cb, fam)"
    by (auto simp: relation_def)
  with c show ?thesis by blast
qed

text \<open>
  C3. For two registered individuals of a finite closed family, both runs of
  \<open>connections\<close> return, \<open>relation\<close> returns, and it returns \<open>None\<close> (no relation) exactly
  when the two dictionaries have no key in common.
\<close>

theorem C3_no_relation_iff_disjoint:
  assumes "wf_store (people fam)" and "name_one \<in> dom (people fam)"
    and "name_two \<in> dom (people fam)"
  shows "\<exists>ca cb. connections (people fam) name_one = Some (Inr ca, people fam) \<and>
           connections (people fam) name_two = Some (Inr cb, people fam) \<and>
           (\<exists>r. relation rel fam name_one name_two = Some (r, fam)) \<and>
           ((relation rel fam name_one name_two = Some (Inr None, fam)) =
            (set (keys ca) \<inter> set (keys cb) = {}))"
proof -
  from relation_eq [OF assms, of rel] obtain ca cb where
    c: "connections (people fam) name_one = Some (Inr ca, people fam)"
       "connections (people fam) name_two = Some (Inr cb, people fam)"
       "distinct (keys ca)"
       "relation rel fam name_one name_two =
          Some (resolve rel (people fam) name_one ca cb, fam)" by blast
  from c(3,4) have "(relation rel fam name_one name_two = Some (Inr None, fam)) =
      (set (keys ca) \<inter> set (keys cb) = {})"
    by (simp add: resolve_None_iff)
  with c show ?thesis by blast
qed

lemma six_family_wf: "wf_store (people six_family)"
  using six_store_wf by (simp add: six_family_def)

lemma strangers_wf: "wf_store (people strangers)"
  unfolding wf_store_def closed_def
  by (auto simp: strangers_def Person_init_def split: if_splits)

lemma strangers_connections:
  "connections (people strangers) ''U'' = Some (Inr [(''U'', '''')], people strangers)"
  "connections (people strangers) ''V'' = Some (Inr [(''V'', '''')], people strangers)"
proof -
  have "bfs_loop h [(''U'', '''')] [''U''] = Some (Inr [(''U'', '''')], h)"
       "bfs_loop h [(''V'', '''')] [''V''] = Some (Inr [(''V'', '''')], h)"
    if "h = people strangers" for h
    using that
    by (simp_all add: bfs_loop.simps getitem_def keys_def strangers_def Person_init_def)
  then show "connections (people strangers) ''U'' = Some (Inr [(''U'', '''')], people strangers)"
    "connections (people strangers) ''V'' = Some (Inr [(''V'', '''')], people strangers)"
    by (simp_all add: connections_def)
qed

theorem C3_no_relation_iff_disjoint_witness:
  "wf_store (people strangers) \<and> ''U'' \<in> dom (people strangers) \<and>
   ''V'' \<in> dom (people strangers) \<and>
   connections (people strangers) ''U'' = Some (Inr [(''U'', '''')], people strangers) \<and>
   connections (people strangers) ''V'' = Some (Inr [(''V'', '''')], people strangers) \<and>
   relation Map.empty strangers ''U'' ''V'' = Some (Inr None, strangers)"
proof -
  have u: "''U'' \<in> dom (people strangers)" and v: "''V'' \<in> dom (people strangers)"
    by (simp_all add: strangers_def)
  from C3_no_relation_iff_disjoint [OF strangers_wf u v, of Map.empty]
  have "relation Map.empty strangers ''U'' ''V'' = Some (Inr None, strangers)"
    by (simp add: strangers_connections keys_def)
  with strangers_wf u v strangers_connections show ?thesis by simp
qed

lemma combined_nonempty:
  "k \<in> set (keys sc) \<Longrightarrow> k \<in> set (keys pc) \<Longrightarrow> 1 \<le> length (combined sc pc k)"
  by (auto simp: combined_def map_of_keys)

text \<open>
  \<open>relation\<close> of a registered name \<open>n\<close> of a finite closed family with itself resolves
  the combined code \<open>":"\<close>: it returns \<open>"distant relative"\<close> when the table has no entry
  for \<open>":"\<close>, and otherwise what the entry gives for the gender of \<open>n\<close>: the term, or
  \<open>KeyError\<close> when the entry has none. It never returns \<open>None\<close>.
\<close>

lemma relation_to_self:
  assumes "wf_store (people fam)" and "people fam n = Some obj"
  shows "relation rel fam n n =
           Some (case rel '':'' of
                   None \<Rightarrow> Inr (Some ''distant relative'')
                 | Some entry \<Rightarrow>
                     (case entry (gender obj) of
                        None \<Rightarrow> Inl KeyError
                      | Some term \<Rightarrow> Inr (Some term)), fam) \<and>
         relation rel fam n n \<noteq> Some (Inr None, fam)"
proof -
  let ?h = "people fam"
  have n: "n \<in> dom ?h" using assms(2) by blast
  from connections_returns [OF assms(1) n] obtain t where
    c: "connections ?h n = Some (Inr ((n, '''') # t), ?h)" "distinct (keys ((n, '''') # t))"
    by blast
  let ?cd = "(n, '''') # t"
  from n c(1) have r: "relation rel fam n n = Some (resolve rel ?h n ?cd ?cd, fam)"
    by (auto simp: relation_def relation_to_def)
  have sk: "sharedkeys ?cd ?cd = n # keys t" by (simp add: sharedkeys_def keys_def)
  have first: "combined ?cd ?cd n = '':''" by (simp add: combined_def)
  have "\<forall>w \<in> set (map (combined ?cd ?cd) (keys t)). length '':'' \<le> length w"
    using combined_nonempty [of _ ?cd ?cd] by (auto simp: keys_def)
  then have "min_by_len '':'' (map (combined ?cd ?cd) (keys t)) = '':''"
    by (rule min_by_len_first)
  then have "resolve rel ?h n ?cd ?cd = lookup_term rel ?h n '':''"
    by (simp add: resolve_eq [OF c(2)] sk first)
  with r assms(2) show ?thesis
    by (auto simp: lookup_term_def split: option.splits)
qed

lemma six_family_W:
  "people six_family ''W'' =
     Some \<lparr>name = ''W'', gender = ''m'', parents = [''Q''], spouse = Some ''X''\<rparr>"
  by (simp add: six_family_def six_store_def)

lemma six_relation_W_W:
  "relation Map.empty six_family ''W'' ''W'' = Some (Inr (Some ''distant relative''), six_family)"
  "relation [''P:'' \<mapsto> [''m'' \<mapsto> ''son''], '':'' \<mapsto> [''m'' \<mapsto> ''self'']] six_family ''W'' ''W'' =
     Some (Inr (Some ''self''), six_family)"
  using relation_to_self [OF six_family_wf six_family_W, of Map.empty]
    relation_to_self [OF six_family_wf six_family_W,
      of "[''P:'' \<mapsto> [''m'' \<mapsto> ''son''], '':'' \<mapsto> [''m'' \<mapsto> ''self'']]"]
  by simp_all

text \<open>
  For two individuals \<open>a\<close> and \<open>b\<close> of a finite closed store whose dictionaries
  \<open>ca\<close> and \<open>cb\<close> share a key, there is a shared key \<open>k\<close> whose combined code is of
  minimum length among the combined codes of all shared keys, and \<open>relation_to\<close> returns
  for it: \<open>"distant relative"\<close> when the table has no entry for the code, and otherwise
  what the entry gives for the gender of \<open>a\<close>: the term, or \<open>KeyError\<close> when the entry
  has none.
\<close>

lemma relation_to_minimal_code:
  assumes "wf_store h" and "h a = Some oa" and "b \<in> dom h"
  shows "\<exists>ca cb. connections h a = Some (Inr ca, h) \<and> connections h b = Some (Inr cb, h) \<and>
           (set (keys ca) \<inter> set (keys cb) \<noteq> {} \<longrightarrow>
            (\<exists>k \<in> set (keys ca) \<inter> set (keys cb).
               (\<forall>k' \<in> set (keys ca) \<inter> set (keys cb).
                  length (combined ca cb k) \<le> length (combined ca cb k')) \<and>
               relation_to rel h a b =
                 Some (case rel (combined ca cb k) of
                         None \<Rightarrow> Inr (Some ''distant relative'')
                       | Some entry \<Rightarrow>
                           (case entry (gender oa) of
                              None \<Rightarrow> Inl KeyError
                            | Some term \<Rightarrow> Inr (Some term)), h)))"
proof -
  have a: "a \<in> dom h" using assms(2) by blast
  from relation_to_eq [OF assms(1) a assms(3), of rel] obtain ca cb where
    c: "connections h a = Some (Inr ca, h)" "connections h b = Some (Inr cb, h)"
       "distinct (keys ca)" "relation_to rel h a b = Some (resolve rel h a ca cb, h)" by blast
  have lt: "lookup_term rel h a c =
      (case rel c of
         None \<Rightarrow> Inr (Some ''distant relative'')
       | Some entry \<Rightarrow>
           (case entry (gender oa) of
              None \<Rightarrow> Inl KeyError
            | Some term \<Rightarrow> Inr (Some term)))" for c
    using assms(2) by (simp add: lookup_term_def split: option.splits)
  have "\<exists>k \<in> set (keys ca) \<inter> set (keys cb).
          (\<forall>k' \<in> set (keys ca) \<inter> set (keys cb).
             length (combined ca cb k) \<le> length (combined ca cb k')) \<and>
          relation_to rel h a b =
            Some (case rel (combined ca cb k) of
                    None \<Rightarrow> Inr (Some ''distant relative'')
                  | Some entry \<Rightarrow>
                      (case entry (gender oa) of
                         None \<Rightarrow> Inl KeyError
                       | Some term \<Rightarrow> Inr (Some term)), h)"
    if ne: "set (keys ca) \<inter> set (keys cb) \<noteq> {}"
  proof -
    from ne obtain s ss where s: "sharedkeys ca cb = s # ss"
      by (cases "sharedkeys ca cb") (auto simp: sharedkeys_set [symmetric])
    let ?v = "combined ca cb s" and ?vs = "map (combined ca cb) ss"
    let ?m = "min_by_len ?v ?vs"
    from min_by_len_min [of ?v ?vs]
    have m: "?m \<in> set (?v # ?vs)" "\<forall>w \<in> set (?v # ?vs). length ?m \<le> length w" by simp_all
    from m(1) obtain k where k: "k \<in> set (s # ss)" "?m = combined ca cb k" by auto
    have sh: "set (s # ss) = set (keys ca) \<inter> set (keys cb)"
      using s sharedkeys_set [of ca cb] by simp
    have "\<forall>k' \<in> set (keys ca) \<inter> set (keys cb). length (combined ca cb k) \<le> length (combined ca cb k')"
      using m(2) k(2) sh by auto
    moreover have "resolve rel h a ca cb = lookup_term rel h a (combined ca cb k)"
      using k(2) s by (simp add: resolve_eq [OF c(3)])
    then have "relation_to rel h a b = Some (lookup_term rel h a (combined ca cb k), h)"
      using c(4) by simp
    moreover have "k \<in> set (keys ca) \<inter> set (keys cb)" using k(1) sh by blast
    ultimately show ?thesis unfolding lt by blast
  qed
  with c(1,2) show ?thesis by blast
qed

lemma six_connections_R:
  "connections six_store ''R'' = Some (Inr [(''R'', ''''), (''Q'', ''S'')], six_store)"
proof -
  have "bfs_loop h [(''R'', '''')] [''R''] = Some (Inr [(''R'', ''''), (''Q'', ''S'')], h)"
    if "h = six_store" for h
    using that by (simp add: bfs_loop.simps getitem_def keys_def six_store_def)
  then show ?thesis by (simp add: connections_def)
qed

lemma six_relation_to_X_R:
  "relation_to [''SP:S'' \<mapsto> [''f'' \<mapsto> ''relative by marriage'']] six_store ''X'' ''R'' =
     Some (Inr (Some ''relative by marriage''), six_store)"
proof -
  have x: "six_store ''X'' =
     Some \<lparr>name = ''X'', gender = ''f'', parents = [''A''], spouse = Some ''W''\<rparr>"
    and r: "''R'' \<in> dom six_store"
    by (simp_all add: six_store_def)
  let ?rel = "[''SP:S'' \<mapsto> [''f'' \<mapsto> ''relative by marriage'']]"
  from relation_to_minimal_code [OF six_store_wf x r, of ?rel]
  show ?thesis
    by (simp add: six_connections_X six_connections_R keys_def combined_def)
qed

lemma six_connections_A:
  "connections six_store ''A'' =
     Some (Inr [(''A'', ''''), (''B'', ''P''), (''Q'', ''PP''), (''R'', ''PPS'')], six_store)"
proof -
  have "bfs_loop h [(''A'', '''')] [''A''] =
        Some (Inr [(''A'', ''''), (''B'', ''P''), (''Q'', ''PP''), (''R'', ''PPS'')], h)"
    if "h = six_store" for h
    using that by (simp add: bfs_loop.simps getitem_def keys_def six_store_def)
  then show ?thesis by (simp add: connections_def)
qed

lemma six_resolve_X_A:
  "resolve rel six_store ''X''
     [(''X'', ''''), (''A'', ''P''), (''W'', ''S''), (''B'', ''PP''), (''Q'', ''SP'')]
     [(''A'', ''''), (''B'', ''P''), (''Q'', ''PP''), (''R'', ''PPS'')] =
   lookup_term rel six_store ''X'' ''P:''"
  by (simp add: resolve_def sharedkeys_def keys_def values_of_def getitem_def)

section \<open>The calls leave the Person objects as they are\<close>

lemma run_call_store:
  assumes "wf_store h" and "set_call c \<subseteq> dom h"
  shows "run_call rel h c = Some h"
proof (cases c)
  case (Connections x)
  with assms(2) have "x \<in> dom h" by simp
  from connections_returns [OF assms(1) this] Connections show ?thesis by auto
next
  case (Relation_to x y)
  with assms(2) have "x \<in> dom h" "y \<in> dom h" by simp_all
  from relation_to_eq [OF assms(1) this, of rel] Relation_to show ?thesis by auto
qed

text \<open>
  C9. Any number of calls of \<open>connections\<close> and \<open>relation_to\<close> on individuals of a
  finite closed store, one after the other, return and leave the store as it was: every
  \<open>Person\<close> has the name, gender, parents and spouse it had.
\<close>

theorem C9_calls_do_not_mutate:
  assumes "wf_store h" and "\<forall>c \<in> set cs. set_call c \<subseteq> dom h"
  shows "run_calls rel h cs = Some h"
  using assms(2)
proof (induction cs)
  case Nil
  show ?case by simp
next
  case (Cons c cs)
  then have "run_call rel h c = Some h" by (intro run_call_store [OF assms(1)]) simp
  with Cons show ?case by simp
qed

theorem C9_calls_do_not_mutate_witness:
  "wf_store six_store \<and>
   set_call (Connections ''X'') \<subseteq> dom six_store \<and>
   set_call (Relation_to ''A'' ''R'') \<subseteq> dom six_store \<and>
   set_call (Connections ''Q'') \<subseteq> dom six_store \<and>
   run_calls Map.empty six_store [Connections ''X'', Relation_to ''A'' ''R'', Connections ''Q'']
     = Some six_store"
proof -
  have s: "set_call (Connections ''X'') \<subseteq> dom six_store"
    "set_call (Relation_to ''A'' ''R'') \<subseteq> dom six_store"
    "set_call (Connections ''Q'') \<subseteq> dom six_store"
    by (simp_all add: six_store_def)
  then have c: "\<forall>c \<in> set [Connections ''X'', Relation_to ''A'' ''R'', Connections ''Q''].
      set_call c \<subseteq> dom six_store"
    by simp
  from C9_calls_do_not_mutate [OF six_store_wf c, of Map.empty] six_store_wf s
  show ?thesis by blast
qed

section \<open>Family.__init__\<close>

lemma dom_add_parent: "dom (add_parent h s p) = dom h"
  by (auto simp: add_parent_def split: option.splits)

lemma dom_set_spouse: "dom (set_spouse h s p) = dom h"
  by (auto simp: set_spouse_def split: option.splits)

lemma dom_init_people: "dom (init_people inds h) = dom h \<union> set (keys inds)"
proof (induction inds arbitrary: h)
  case Nil
  show ?case by (simp add: keys_def)
next
  case (Cons e inds)
  obtain key g where e: "e = (key, g)" by (cases e)
  have "dom (init_people inds (h(key \<mapsto> Person_init key g))) =
        dom (h(key \<mapsto> Person_init key g)) \<union> set (keys inds)" by (rule Cons.IH)
  then show ?case using e by (auto simp: keys_def)
qed

lemma add_parents_dom: "add_parents person ps h = Inr h' \<Longrightarrow> dom h' = dom h"
  by (induction ps arbitrary: h) (auto simp: dom_add_parent split: option.splits)

lemma link_parents_dom: "link_parents pm h = Inr h' \<Longrightarrow> dom h' = dom h"
proof (induction pm arbitrary: h)
  case Nil
  then show ?case by simp
next
  case (Cons e pm)
  obtain person ps where e: "e = (person, ps)" by (cases e)
  from Cons.prems e obtain h1 where
    h1: "add_parents person ps h = Inr h1" "link_parents pm h1 = Inr h'"
    by (auto split: option.splits sum.splits)
  from Cons.IH [OF h1(2)] add_parents_dom [OF h1(1)] show ?case by simp
qed

lemma link_couples_append:
  "link_couples (xs @ ys) h =
     (case link_couples xs h of Inl e \<Rightarrow> Inl e | Inr h' \<Rightarrow> link_couples ys h')"
  by (induction xs arbitrary: h) (auto split: list.splits option.splits)

lemma link_couples_dom: "link_couples cs h = Inr h' \<Longrightarrow> dom h' = dom h"
proof (induction cs arbitrary: h)
  case Nil
  then show ?case by simp
next
  case (Cons pair cs)
  show ?case
  proof (cases pair)
    case Nil
    with Cons show ?thesis by simp
  next
    case (Cons a pair')
    with Cons.prems obtain b pair'' where
      p: "pair' = b # pair''"
         "link_couples cs (set_spouse (set_spouse h a b) b a) = Inr h'"
      by (auto split: list.splits option.splits)
    from Cons.IH [OF p(2)] show ?thesis by (simp add: dom_set_spouse)
  qed
qed

lemma closed_add_parent: "closed h \<Longrightarrow> p \<in> dom h \<Longrightarrow> closed (add_parent h s p)"
  unfolding closed_def add_parent_def
  by (auto split: option.splits if_splits)

lemma closed_set_spouse: "closed h \<Longrightarrow> p \<in> dom h \<Longrightarrow> closed (set_spouse h s p)"
  unfolding closed_def set_spouse_def
  by (auto split: option.splits if_splits)

lemma closed_init_people: "closed h \<Longrightarrow> closed (init_people inds h)"
proof (induction inds arbitrary: h)
  case Nil
  then show ?case by simp
next
  case (Cons e inds)
  obtain key g where e: "e = (key, g)" by (cases e)
  have "closed (h(key \<mapsto> Person_init key g))"
    using Cons.prems unfolding closed_def Person_init_def
    by (auto split: if_splits)
  then have "closed (init_people inds (h(key \<mapsto> Person_init key g)))" by (rule Cons.IH)
  then show ?case using e by simp
qed

lemma add_parents_closed: "add_parents person ps h = Inr h' \<Longrightarrow> closed h \<Longrightarrow> closed h'"
proof (induction ps arbitrary: h)
  case Nil
  then show ?case by simp
next
  case (Cons p ps)
  from Cons.prems(1) have p: "p \<in> dom h" "add_parents person ps (add_parent h person p) = Inr h'"
    by (auto split: option.splits)
  from Cons.IH [OF p(2) closed_add_parent [OF Cons.prems(2) p(1)]] show ?case .
qed

lemma link_parents_closed: "link_parents pm h = Inr h' \<Longrightarrow> closed h \<Longrightarrow> closed h'"
proof (induction pm arbitrary: h)
  case Nil
  then show ?case by simp
next
  case (Cons e pm)
  obtain person ps where e: "e = (person, ps)" by (cases e)
  from Cons.prems(1) e obtain h1 where
    h1: "add_parents person ps h = Inr h1" "link_parents pm h1 = Inr h'"
    by (auto split: option.splits sum.splits)
  from Cons.IH [OF h1(2) add_parents_closed [OF h1(1) Cons.prems(2)]] show ?case .
qed

lemma link_couples_closed: "link_couples cs h = Inr h' \<Longrightarrow> closed h \<Longrightarrow> closed h'"
proof (induction cs arbitrary: h)
  case Nil
  then show ?case by simp
next
  case (Cons pair cs)
  show ?case
  proof (cases pair)
    case Nil
    with Cons show ?thesis by simp
  next
    case (Cons a pair')
    with Cons.prems(1) obtain b pair'' where
      p: "pair' = b # pair''" "a \<in> dom h" "b \<in> dom h"
         "link_couples cs (set_spouse (set_spouse h a b) b a) = Inr h'"
      by (auto split: list.splits option.splits)
    have "closed (set_spouse (set_spouse h a b) b a)"
      using Cons.prems(2) p(2,3) by (simp add: closed_set_spouse dom_set_spouse)
    from Cons.IH [OF p(4) this] show ?thesis .
  qed
qed

lemma Family_init_cases:
  assumes "Family_init d = Inr fam"
  obtains h1 where
    "link_parents (parents_of d) (init_people (individuals d) Map.empty) = Inr h1"
    "link_couples (couples d) h1 = Inr (people fam)"
  using assms by (auto simp: Family_init_def split: sum.splits)

lemma Family_init_wf:
  assumes "Family_init d = Inr fam"
  shows "wf_store (people fam)" and "dom (people fam) = set (keys (individuals d))"
proof -
  from assms obtain h1 where
    h: "link_parents (parents_of d) (init_people (individuals d) Map.empty) = Inr h1"
       "link_couples (couples d) h1 = Inr (people fam)"
    by (rule Family_init_cases)
  have "closed (init_people (individuals d) Map.empty)"
    by (rule closed_init_people) (simp add: closed_def)
  from link_couples_closed [OF h(2) link_parents_closed [OF h(1) this]]
  have c: "closed (people fam)" .
  show d: "dom (people fam) = set (keys (individuals d))"
    using link_couples_dom [OF h(2)] link_parents_dom [OF h(1)] by (simp add: dom_init_people)
  from c d show "wf_store (people fam)" by (simp add: wf_store_def)
qed

lemma six_family_init: "Family_init six_dataset = Inr six_family"
  by (simp add: Family_init_def six_dataset_def six_family_def six_store_def Person_init_def
      add_parent_def set_spouse_def fun_eq_iff)

lemma triangle_family_init: "Family_init triangle_dataset = Inr triangle_family"
  by (simp add: Family_init_def triangle_dataset_def triangle_family_def Person_init_def
      add_parent_def set_spouse_def fun_eq_iff)

lemma link_couples_single:
  "link_couples ([x] # post) h = Inl (if x \<in> dom h then IndexError else KeyError)"
  by (auto split: option.splits)

text \<open>
  C8, as the code has it. When the couples list has an entry \<open>[x]\<close> of one name,
  \<open>Family.__init__\<close> fails. When the individuals, the parents and the couples before the
  entry are processed without error, it fails with \<open>IndexError\<close> if \<open>x\<close> is registered
  and with \<open>KeyError\<close> if it is not: \<open>self.people[pair[0]]\<close> is looked up before
  \<open>pair[1]\<close> is read. When the parents or the couples before the entry raise an error, it
  fails with that error. An empty entry is skipped without effect.
\<close>

theorem C8_entry_of_one_name:
  assumes "couples d = pre @ [x] # post"
  shows "(\<exists>e. Family_init d = Inl e) \<and>
         (\<forall>h1 h2. link_parents (parents_of d) (init_people (individuals d) Map.empty) = Inr h1 \<longrightarrow>
            link_couples pre h1 = Inr h2 \<longrightarrow>
            Family_init d =
              Inl (if x \<in> set (keys (individuals d)) then IndexError else KeyError)) \<and>
         (\<forall>cs cs' h. link_couples (cs @ [] # cs') h = link_couples (cs @ cs') h) \<and>
         (\<forall>e. link_parents (parents_of d) (init_people (individuals d) Map.empty) = Inl e \<longrightarrow>
            Family_init d = Inl e) \<and>
         (\<forall>h1 e. link_parents (parents_of d) (init_people (individuals d) Map.empty) = Inr h1 \<longrightarrow>
            link_couples pre h1 = Inl e \<longrightarrow> Family_init d = Inl e)"
proof (intro conjI allI impI)
  fix h1 h2
  assume h: "link_parents (parents_of d) (init_people (individuals d) Map.empty) = Inr h1"
    "link_couples pre h1 = Inr h2"
  have "dom h2 = set (keys (individuals d))"
    using link_couples_dom [OF h(2)] link_parents_dom [OF h(1)] by (simp add: dom_init_people)
  then show "Family_init d =
      Inl (if x \<in> set (keys (individuals d)) then IndexError else KeyError)"
    using h assms
    by (simp add: Family_init_def link_couples_append link_couples_single
        del: link_couples.simps)
next
  show "\<exists>e. Family_init d = Inl e"
    using assms
    by (auto simp: Family_init_def link_couples_append link_couples_single
        simp del: link_couples.simps split: sum.splits)
next
  fix cs cs' :: "string list list" and h :: "string store"
  show "link_couples (cs @ [] # cs') h = link_couples (cs @ cs') h"
    by (simp add: link_couples_append split: sum.splits)
next
  fix e
  assume "link_parents (parents_of d) (init_people (individuals d) Map.empty) = Inl e"
  then show "Family_init d = Inl e" by (simp add: Family_init_def)
next
  fix h1 e
  assume "link_parents (parents_of d) (init_people (individuals d) Map.empty) = Inr h1"
    "link_couples pre h1 = Inl e"
  then show "Family_init d = Inl e"
    using assms by (simp add: Family_init_def link_couples_append del: link_couples.simps)
qed

theorem C8_entry_of_one_name_witness:
  "couples (single_dataset ''b'') = [[]] @ [''b''] # [[''a'', ''b'']] \<and>
   Family_init (single_dataset ''b'') = Inl IndexError \<and>
   link_couples ([] @ [] # [[''a'', ''b'']]) Map.empty = link_couples ([] @ [[''a'', ''b'']]) Map.empty"
proof -
  have c: "couples (single_dataset ''b'') = [[]] @ [''b''] # [[''a'', ''b'']]"
    by (simp add: single_dataset_def)
  have l: "link_parents (parents_of (single_dataset ''b''))
             (init_people (individuals (single_dataset ''b'')) Map.empty) =
           Inr [''a'' \<mapsto> \<lparr>name = ''a'', gender = ''f'', parents = [''b''], spouse = None\<rparr>,
                ''b'' \<mapsto> Person_init ''b'' ''m'']"
    by (simp add: single_dataset_def add_parent_def Person_init_def fun_eq_iff)
  from C8_entry_of_one_name [OF c] l
  have "Family_init (single_dataset ''b'') = Inl IndexError"
    by (simp add: single_dataset_def keys_def)
  moreover from C8_entry_of_one_name [OF c]
  have "link_couples ([] @ [] # [[''a'', ''b'']]) Map.empty =
        link_couples ([] @ [[''a'', ''b'']]) Map.empty" by blast
  ultimately show ?thesis using c by blast
qed

theorem C8_counterexample:
  "couples (single_dataset ''Zed'') = [[], [''Zed''], [''a'', ''b'']] \<and>
   Family_init (single_dataset ''Zed'') = Inl KeyError \<and>
   Family_init (single_dataset ''Zed'') \<noteq> Inl IndexError"
  by (simp add: single_dataset_def Family_init_def add_parent_def Person_init_def)

section \<open>Spouse links\<close>

lemma spouse_of_add_parent: "spouse_of (add_parent h s p) x = spouse_of h x"
  by (simp add: spouse_of_def add_parent_def split: option.splits)

lemma spouse_of_set_spouse:
  "spouse_of (set_spouse h s p) x = (if x = s \<and> s \<in> dom h then Some p else spouse_of h x)"
  by (auto simp: spouse_of_def set_spouse_def split: option.splits)

lemma spouse_of_new_Person:
  "spouse_of (h(key \<mapsto> Person_init key g)) x = (if x = key then None else spouse_of h x)"
  by (simp add: spouse_of_def Person_init_def)

lemma spouse_of_init_people:
  "spouse_of (init_people inds h) x = (if x \<in> set (keys inds) then None else spouse_of h x)"
proof (induction inds arbitrary: h)
  case Nil
  show ?case by (simp add: keys_def)
next
  case (Cons e inds)
  obtain key g where e: "e = (key, g)" by (cases e)
  have "spouse_of (init_people inds (h(key \<mapsto> Person_init key g))) x =
        (if x \<in> set (keys inds) then None else spouse_of (h(key \<mapsto> Person_init key g)) x)"
    by (rule Cons.IH)
  then show ?case unfolding e by (simp add: spouse_of_new_Person keys_def)
qed

lemma add_parents_spouse_of:
  "add_parents person ps h = Inr h' \<Longrightarrow> spouse_of h' x = spouse_of h x"
  by (induction ps arbitrary: h) (auto simp: spouse_of_add_parent split: option.splits)

lemma link_parents_spouse_of:
  "link_parents pm h = Inr h' \<Longrightarrow> spouse_of h' x = spouse_of h x"
proof (induction pm arbitrary: h)
  case Nil
  then show ?case by simp
next
  case (Cons e pm)
  obtain person ps where e: "e = (person, ps)" by (cases e)
  from Cons.prems e obtain h1 where
    h1: "add_parents person ps h = Inr h1" "link_parents pm h1 = Inr h'"
    by (auto split: option.splits sum.splits)
  from Cons.IH [OF h1(2)] add_parents_spouse_of [OF h1(1)] show ?case by simp
qed

lemma spouse_of_Some:
  "(spouse_of h a = Some b) = (\<exists>oa. h a = Some oa \<and> spouse oa = Some b)"
  by (cases "h a") (simp_all add: spouse_of_def)

lemma spouse_symmetric_iff:
  "spouse_symmetric h = (\<forall>a b. spouse_of h a = Some b \<longrightarrow> spouse_of h b = Some a)"
  unfolding spouse_symmetric_def spouse_of_Some by blast

lemma couple_of_simps:
  "couple_of [] = {}" "couple_of [a] = {a}" "couple_of (a # b # rest) = {a, b}"
  by (auto simp: couple_of_def numeral_2_eq_2)

lemma spouse_of_pair:
  assumes "a \<in> dom h" and "b \<in> dom h"
  shows "spouse_of (set_spouse (set_spouse h a b) b a) x =
         (if x = b then Some a else if x = a then Some b else spouse_of h x)"
  using assms by (simp add: spouse_of_set_spouse dom_set_spouse)

lemma link_pair_inv:
  assumes J: "\<forall>x y. spouse_of h x = Some y \<longrightarrow>
                spouse_of h y = Some x \<and> (\<exists>p \<in> set done. couple_of p = {x, y})"
    and ab: "a \<in> dom h" "b \<in> dom h"
    and cons: "\<forall>p \<in> set done. couple_of p \<inter> {a, b} \<noteq> {} \<longrightarrow> couple_of p = {a, b}"
    and h2: "h2 = set_spouse (set_spouse h a b) b a"
    and sp: "spouse_of h2 x = Some y"
  shows "spouse_of h2 y = Some x \<and>
         (\<exists>p \<in> set (done @ [a # b # rest]). couple_of p = {x, y})"
proof -
  have s: "spouse_of h2 z = (if z = b then Some a else if z = a then Some b else spouse_of h z)"
    for z unfolding h2 by (rule spouse_of_pair [OF ab])
  consider "x = b" | "x \<noteq> b" "x = a" | "x \<noteq> b" "x \<noteq> a" by blast
  then show ?thesis
  proof cases
    case 1
    with sp s have "y = a" by simp
    with 1 s show ?thesis by (auto simp: couple_of_simps)
  next
    case 2
    with sp s have "y = b" by simp
    with 2 s show ?thesis by (auto simp: couple_of_simps)
  next
    case 3
    with sp s have old: "spouse_of h x = Some y" by simp
    with J obtain p where p: "spouse_of h y = Some x" "p \<in> set done" "couple_of p = {x, y}"
      by blast
    have "y \<noteq> a \<and> y \<noteq> b"
    proof (rule ccontr)
      assume "\<not> (y \<noteq> a \<and> y \<noteq> b)"
      then have "couple_of p \<inter> {a, b} \<noteq> {}" using p(3) by auto
      with cons p(2) have "couple_of p = {a, b}" by blast
      with p(3) have "x \<in> {a, b}" by blast
      with 3 show False by simp
    qed
    with s p show ?thesis by auto
  qed
qed

lemma link_couples_inv:
  assumes "link_couples cs h = Inr h'"
    and "\<forall>x y. spouse_of h x = Some y \<longrightarrow>
           spouse_of h y = Some x \<and> (\<exists>p \<in> set done. couple_of p = {x, y})"
    and "consistent_couples (done @ cs)"
  shows "\<forall>x y. spouse_of h' x = Some y \<longrightarrow>
           spouse_of h' y = Some x \<and> (\<exists>p \<in> set (done @ cs). couple_of p = {x, y})"
  using assms
proof (induction cs arbitrary: h "done")
  case Nil
  from Nil.prems(1) have "h' = h" by simp
  with Nil.prems(2) show ?case unfolding append_Nil2 by blast
next
  case (Cons pair cs)
  have e: "(done @ [pair]) @ cs = done @ pair # cs" by simp
  have c': "consistent_couples ((done @ [pair]) @ cs)" using Cons.prems(3) unfolding e .
  show ?case
  proof (cases pair)
    case Nil
    with Cons.prems(1) have l: "link_couples cs h = Inr h'" by simp
    have "\<forall>x y. spouse_of h x = Some y \<longrightarrow>
           spouse_of h y = Some x \<and> (\<exists>p \<in> set (done @ [pair]). couple_of p = {x, y})"
    proof (intro allI impI)
      fix x y assume "spouse_of h x = Some y"
      with Cons.prems(2) obtain p where
        "spouse_of h y = Some x" "p \<in> set done" "couple_of p = {x, y}" by blast
      moreover from this have "p \<in> set (done @ [pair])" by simp
      ultimately show "spouse_of h y = Some x \<and>
          (\<exists>p \<in> set (done @ [pair]). couple_of p = {x, y})" by blast
    qed
    from Cons.IH [OF l this c'] show ?thesis unfolding e .
  next
    case (Cons a pair')
    with Cons.prems(1) obtain b rest where
      p: "pair' = b # rest" "a \<in> dom h" "b \<in> dom h"
         "link_couples cs (set_spouse (set_spouse h a b) b a) = Inr h'"
      by (auto split: list.splits option.splits)
    have pair: "pair = a # b # rest" using Cons p(1) by simp
    have cp: "couple_of pair = {a, b}" unfolding pair by (rule couple_of_simps)
    have cons: "\<forall>q \<in> set done. couple_of q \<inter> {a, b} \<noteq> {} \<longrightarrow> couple_of q = {a, b}"
    proof (intro ballI impI)
      fix q assume q: "q \<in> set done" "couple_of q \<inter> {a, b} \<noteq> {}"
      have "q \<in> set (done @ pair # cs)" "pair \<in> set (done @ pair # cs)" using q(1) by simp_all
      with Cons.prems(3) have "couple_of q \<inter> couple_of pair \<noteq> {} \<longrightarrow> couple_of q = couple_of pair"
        unfolding consistent_couples_def by blast
      with q(2) show "couple_of q = {a, b}" unfolding cp by blast
    qed
    have "\<forall>x y. spouse_of (set_spouse (set_spouse h a b) b a) x = Some y \<longrightarrow>
           spouse_of (set_spouse (set_spouse h a b) b a) y = Some x \<and>
           (\<exists>q \<in> set (done @ [pair]). couple_of q = {x, y})"
      unfolding pair
      by (intro allI impI) (rule link_pair_inv [OF Cons.prems(2) p(2,3) cons refl])
    from Cons.IH [OF p(4) this c'] show ?thesis unfolding e .
  qed
qed

lemma spouse_of_empty: "spouse_of Map.empty x = None"
  by (simp add: spouse_of_def)

lemma Family_init_symmetric:
  assumes "Family_init d = Inr fam" and "consistent_couples (couples d)"
  shows "spouse_symmetric (people fam)"
proof -
  from assms(1) obtain h1 where
    h: "link_parents (parents_of d) (init_people (individuals d) Map.empty) = Inr h1"
       "link_couples (couples d) h1 = Inr (people fam)"
    by (rule Family_init_cases)
  have "spouse_of h1 x = None" for x
    unfolding link_parents_spouse_of [OF h(1)] spouse_of_init_people spouse_of_empty by simp
  then have "\<forall>x y. spouse_of h1 x = Some y \<longrightarrow>
           spouse_of h1 y = Some x \<and> (\<exists>p \<in> set []. couple_of p = {x, y})" by simp
  moreover have "consistent_couples ([] @ couples d)" using assms(2) by simp
  ultimately have "\<forall>x y. spouse_of (people fam) x = Some y \<longrightarrow>
           spouse_of (people fam) y = Some x \<and>
           (\<exists>p \<in> set ([] @ couples d). couple_of p = {x, y})"
    by (rule link_couples_inv [OF h(2)])
  then show ?thesis unfolding spouse_symmetric_iff by blast
qed

text \<open>
  C5, as the code has it. When \<open>Family.__init__\<close> returns a family and any two entries of
  the couples list that share an individual join the same two individuals, the spouse
  links of the family are symmetric; and every call of \<open>relation\<close> returns and leaves
  the family as it was, symmetric spouse links included.
\<close>

theorem C5_spouse_links_symmetric:
  assumes "Family_init d = Inr fam" and "consistent_couples (couples d)"
  shows "spouse_symmetric (people fam) \<and>
         (\<forall>rel name_one name_two. \<exists>r. relation rel fam name_one name_two = Some (r, fam))"
proof
  show "spouse_symmetric (people fam)" by (rule Family_init_symmetric [OF assms])
next
  have wf: "wf_store (people fam)" by (rule Family_init_wf(1) [OF assms(1)])
  show "\<forall>rel name_one name_two. \<exists>r. relation rel fam name_one name_two = Some (r, fam)"
  proof (intro allI)
    fix rel name_one name_two
    show "\<exists>r. relation rel fam name_one name_two = Some (r, fam)"
    proof (cases "name_one \<in> dom (people fam) \<and> name_two \<in> dom (people fam)")
      case True
      with relation_eq [OF wf, of name_one name_two rel] show ?thesis by blast
    next
      case False
      then show ?thesis by (auto simp: relation_def split: option.splits)
    qed
  qed
qed

theorem C5_spouse_links_symmetric_witness:
  "Family_init six_dataset = Inr six_family \<and> consistent_couples (couples six_dataset) \<and>
   spouse_symmetric (people six_family) \<and>
   (\<exists>r. relation Map.empty six_family ''X'' ''R'' = Some (r, six_family))"
proof -
  have c: "consistent_couples (couples six_dataset)"
    by (simp add: consistent_couples_def six_dataset_def couple_of_simps)
  from C5_spouse_links_symmetric [OF six_family_init c] six_family_init c
  show ?thesis by blast
qed

theorem C5_counterexample:
  "Family_init triangle_dataset = Inr triangle_family \<and>
   \<not> spouse_symmetric (people triangle_family)"
proof -
  have "spouse_of (people triangle_family) ''b'' = Some ''a''"
    "spouse_of (people triangle_family) ''a'' \<noteq> Some ''b''"
    by (simp_all add: spouse_of_def triangle_family_def)
  then have "\<not> spouse_symmetric (people triangle_family)"
    unfolding spouse_symmetric_iff by blast
  with triangle_family_init show ?thesis by simp
qed

section \<open>Paths\<close>

lemma is_path_append:
  "is_path h x (p @ q) y = (\<exists>z. is_path h x p z \<and> is_path h z q y)"
proof (induction p arbitrary: x)
  case Nil
  show ?case by simp
next
  case (Cons c p)
  show ?case
  proof (cases "h x")
    case None
    then show ?thesis by simp
  next
    case (Some obj)
    then show ?thesis using Cons by (cases "spouse obj") auto
  qed
qed

lemma is_path_P: "h u = Some obj \<Longrightarrow> v \<in> set (parents obj) \<Longrightarrow> is_path h u ''P'' v"
  by simp

lemma is_path_S: "h u = Some obj \<Longrightarrow> spouse obj = Some w \<Longrightarrow> is_path h u ''S'' w"
  by simp

lemma is_path_chars: "is_path h x p y \<Longrightarrow> set p \<subseteq> {CHR ''P'', CHR ''S''}"
proof (induction p arbitrary: x)
  case Nil
  show ?case by simp
next
  case (Cons c p)
  from Cons.prems obtain obj where obj: "h x = Some obj" by (cases "h x") auto
  from Cons.prems obj have c: "c = CHR ''P'' \<or> c = CHR ''S''" by (auto split: if_splits)
  from Cons.prems obj obtain z where "is_path h z p y"
    by (auto split: if_splits option.splits)
  from Cons.IH [OF this] c show ?case by auto
qed

lemma spouse_steps_append: "spouse_steps (p @ q) = spouse_steps p + spouse_steps q"
  by (simp add: spouse_steps_def)

lemma spouse_steps_0: "(spouse_steps p = 0) = (CHR ''S'' \<notin> set p)"
  by (induction p) (auto simp: spouse_steps_def)

lemma valid_shape:
  assumes "set p \<subseteq> {CHR ''P'', CHR ''S''}" and "spouse_steps p \<le> 1"
  shows "set p \<subseteq> {CHR ''P''} \<or>
         (\<exists>p1 p2. p = p1 @ ''S'' @ p2 \<and> set p1 \<subseteq> {CHR ''P''} \<and> set p2 \<subseteq> {CHR ''P''})"
proof (cases "CHR ''S'' \<in> set p")
  case False
  with assms(1) show ?thesis by auto
next
  case True
  then obtain p1 p2 where p: "p = p1 @ CHR ''S'' # p2" by (auto dest: split_list)
  have "spouse_steps p = spouse_steps p1 + 1 + spouse_steps p2"
    unfolding p by (simp add: spouse_steps_def)
  with assms(2) have "spouse_steps p1 = 0" "spouse_steps p2 = 0" by simp_all
  then have "CHR ''S'' \<notin> set p1" "CHR ''S'' \<notin> set p2" by (simp_all add: spouse_steps_0)
  with assms(1) p have "set p1 \<subseteq> {CHR ''P''}" "set p2 \<subseteq> {CHR ''P''}" by auto
  with p show ?thesis by auto
qed

section \<open>The recorded paths are paths\<close>

lemma connections_sound:
  assumes "wf_store h" and "x \<in> dom h"
  shows "\<exists>cd. connections h x = Some (Inr cd, h) \<and> (\<forall>(y, p) \<in> set cd. is_path h x p y)"
proof -
  let ?I = "\<lambda>(cd :: 'a cdict) (q :: 'a list). \<forall>(y, p) \<in> set cd. is_path h x p y"
  have "\<exists>cd. bfs_loop h [(x, '''')] [x] = Some (Inr cd, h) \<and> ?I cd []"
  proof (rule bfs_loop_rule [where I = ?I])
    show "finite (dom h)" "closed h" using assms(1) by (simp_all add: wf_store_def)
    show "set [x] \<subseteq> set (keys [(x, '''')])" by (simp add: keys_def)
    show "set (keys [(x, '''')]) \<subseteq> dom h" using assms(2) by (simp add: keys_def)
    show "\<forall>(y, p) \<in> set [(x, '''')]. is_path h x p y" by simp
  next
    fix cd :: "'a cdict" and person rest pp obj ext
    assume inv: "\<forall>(y, p) \<in> set cd. is_path h x p y"
      and pp: "map_of cd person = Some pp" and obj: "h person = Some obj"
      and ext: "extension pp obj cd ext"
    from pp have "(person, pp) \<in> set cd" by (rule map_of_SomeD)
    with inv have p: "is_path h x pp person" by auto
    have "is_path h x r k" if "(k, r) \<in> set ext" for k r
    proof -
      from ext that consider "k \<in> set (parents obj)" "r = pp @ ''P''"
        | "spouse obj = Some k" "r = pp @ ''S''"
        by (auto simp: extension_def)
      then show ?thesis
      proof cases
        case 1
        from obj 1(1) have "is_path h person ''P'' k" by (rule is_path_P)
        with p have "is_path h x (pp @ ''P'') k" unfolding is_path_append by blast
        with 1(2) show ?thesis by simp
      next
        case 2
        from obj 2(1) have "is_path h person ''S'' k" by (rule is_path_S)
        with p have "is_path h x (pp @ ''S'') k" unfolding is_path_append by blast
        with 2(2) show ?thesis by simp
      qed
    qed
    with inv show "\<forall>(y, p) \<in> set (cd @ ext). is_path h x p y" by auto
  qed
  then show ?thesis by (simp add: connections_def)
qed

section \<open>Breadth first: the lengths of the recorded paths\<close>

lemma plen_Some: "map_of cd k = Some p \<Longrightarrow> plen cd k = length p"
  by (simp add: plen_def)

lemma plen_old: "k \<in> set (keys cd) \<Longrightarrow> plen (cd @ ext) k = plen cd k"
  by (simp only: plen_def map_of_old)

lemma plen_new:
  assumes "extension pp obj cd ext" and "k \<in> set (keys ext)"
  shows "plen (cd @ ext) k = length pp + 1"
proof -
  from assms have "k \<notin> set (keys cd)" by (auto simp: extension_def)
  then have "map_of cd k = None" by (simp add: map_of_keys)
  then have m: "map_of (cd @ ext) k = map_of ext k" by (simp add: map_add_def)
  from assms(2) obtain p where p: "map_of ext k = Some p" by (auto simp: map_of_keys)
  then have "(k, p) \<in> set ext" by (rule map_of_SomeD)
  with assms(1) have "length p = length pp + 1" by (auto simp: extension_def)
  with m p show ?thesis by (simp add: plen_def)
qed

lemma sorted_const: "\<forall>v \<in> set xs. f v = (c :: nat) \<Longrightarrow> sorted (map f xs)"
  by (induction xs) auto

lemma explored_mono:
  assumes "explored h cd u" and "u \<in> set (keys cd)"
  shows "explored h (cd @ ext) u"
  unfolding explored_def
proof (intro allI impI)
  fix obj pu
  assume obj: "h u = Some obj" and "map_of (cd @ ext) u = Some pu"
  with assms(2) have pu: "map_of cd u = Some pu" by (simp only: map_of_old)
  from assms(1) obj pu have
    e: "\<forall>v \<in> set (parents obj). v \<in> set (keys cd) \<and> plen cd v \<le> length pu + 1"
       "CHR ''S'' \<notin> set pu \<longrightarrow>
          (\<forall>w. spouse obj = Some w \<longrightarrow> w \<in> set (keys cd) \<and> plen cd w \<le> length pu + 1)"
    unfolding explored_def by blast+
  show "(\<forall>v \<in> set (parents obj). v \<in> set (keys (cd @ ext)) \<and> plen (cd @ ext) v \<le> length pu + 1) \<and>
        (CHR ''S'' \<notin> set pu \<longrightarrow>
           (\<forall>w. spouse obj = Some w \<longrightarrow>
              w \<in> set (keys (cd @ ext)) \<and> plen (cd @ ext) w \<le> length pu + 1))"
    using e by (auto simp: plen_old keys_append)
qed

lemma bfs_inv_step:
  assumes inv: "bfs_inv h cd (person # rest)"
    and sub: "set (person # rest) \<subseteq> set (keys cd)"
    and pp: "map_of cd person = Some pp" and obj: "h person = Some obj"
    and ext: "extension pp obj cd ext"
  shows "bfs_inv h (cd @ ext) (rest @ keys ext)"
proof -
  let ?cd = "cd @ ext"
  have d: "plen cd person = length pp" using pp by (rule plen_Some)
  from inv have srt: "sorted (map (plen cd) (person # rest))"
    and near: "\<forall>k \<in> set (keys cd). \<forall>f \<in> set (person # rest). plen cd k \<le> plen cd f + 1"
    and expl: "\<forall>u \<in> set (keys cd). u \<in> set (person # rest) \<or> explored h cd u"
    by (simp_all add: bfs_inv_def)
  have old: "plen ?cd k = plen cd k" if "k \<in> set (keys cd)" for k
    using that by (rule plen_old)
  have new: "plen ?cd k = length pp + 1" if "k \<in> set (keys ext)" for k
    using ext that by (rule plen_new)
  have up: "plen cd k \<le> length pp + 1" if "k \<in> set (keys cd)" for k
    using near that d by auto
  have low: "length pp \<le> plen cd f" if "f \<in> set rest" for f
    using srt that d by auto
  have rest: "set rest \<subseteq> set (keys cd)" using sub by simp
  have all: "plen ?cd k \<le> length pp + 1" if "k \<in> set (keys ?cd)" for k
    using that old new up by (auto simp: keys_append)
  have s1: "sorted (map (plen ?cd) rest)"
  proof -
    have eq: "map (plen ?cd) rest = map (plen cd) rest" using rest old by (intro map_cong) auto
    from srt have "sorted (map (plen cd) rest)" by simp
    then show ?thesis unfolding eq .
  qed
  have s2: "sorted (map (plen ?cd) (keys ext))" using new by (intro sorted_const) auto
  have s3: "plen ?cd a \<le> plen ?cd b" if "a \<in> set rest" "b \<in> set (keys ext)" for a b
    using that rest old [of a] new [of b] up [of a] by auto
  have A: "sorted (map (plen ?cd) (rest @ keys ext))"
    using s1 s2 s3 by (auto simp: sorted_append)
  have B: "plen ?cd k \<le> plen ?cd f + 1" if "k \<in> set (keys ?cd)" "f \<in> set (rest @ keys ext)" for k f
  proof (cases "f \<in> set rest")
    case True
    with rest old [of f] low [of f] all [OF that(1)] show ?thesis by auto
  next
    case False
    with that(2) have "f \<in> set (keys ext)" by simp
    with new [of f] all [OF that(1)] show ?thesis by simp
  qed
  have ep: "explored h ?cd person"
    unfolding explored_def
  proof (intro allI impI)
    fix obj' pu
    assume "h person = Some obj'" and "map_of ?cd person = Some pu"
    moreover have "map_of ?cd person = map_of cd person" using sub by (simp only: map_of_old list.set insert_subset)
    ultimately have eq: "obj' = obj" "pu = pp" using obj pp by simp_all
    from ext have par: "set (parents obj) \<subseteq> set (keys ?cd)"
      and sp: "CHR ''S'' \<notin> set pp \<longrightarrow> (\<forall>w. spouse obj = Some w \<longrightarrow> w \<in> set (keys ?cd))"
      by (simp_all add: extension_def)
    show "(\<forall>v \<in> set (parents obj'). v \<in> set (keys ?cd) \<and> plen ?cd v \<le> length pu + 1) \<and>
        (CHR ''S'' \<notin> set pu \<longrightarrow>
           (\<forall>w. spouse obj' = Some w \<longrightarrow> w \<in> set (keys ?cd) \<and> plen ?cd w \<le> length pu + 1))"
      unfolding eq using par sp all by blast
  qed
  have C: "u \<in> set (rest @ keys ext) \<or> explored h ?cd u" if "u \<in> set (keys ?cd)" for u
  proof (cases "u \<in> set (keys cd)")
    case False
    with that show ?thesis by (simp add: keys_append)
  next
    case True
    with expl consider "u = person" | "u \<in> set rest" | "explored h cd u" by auto
    then show ?thesis
    proof cases
      case 1
      with ep show ?thesis by simp
    next
      case 2
      then show ?thesis by simp
    next
      case 3
      from explored_mono [OF this True] show ?thesis by simp
    qed
  qed
  from A B C show ?thesis unfolding bfs_inv_def by blast
qed

lemma connections_explored:
  assumes "wf_store h" and "x \<in> dom h"
  shows "\<exists>cd. connections h x = Some (Inr cd, h) \<and> (\<forall>u \<in> set (keys cd). explored h cd u)"
proof -
  have "\<exists>cd. bfs_loop h [(x, '''')] [x] = Some (Inr cd, h) \<and> bfs_inv h cd []"
  proof (rule bfs_loop_rule [where I = "bfs_inv h"])
    show "finite (dom h)" "closed h" using assms(1) by (simp_all add: wf_store_def)
    show "set [x] \<subseteq> set (keys [(x, '''')])" by (simp add: keys_def)
    show "set (keys [(x, '''')]) \<subseteq> dom h" using assms(2) by (simp add: keys_def)
    show "bfs_inv h [(x, '''')] [x]" by (simp add: bfs_inv_def keys_def)
  next
    fix cd :: "'a cdict" and person rest pp obj ext
    assume "bfs_inv h cd (person # rest)" "set (person # rest) \<subseteq> set (keys cd)"
      "map_of cd person = Some pp" "h person = Some obj" "extension pp obj cd ext"
    then show "bfs_inv h (cd @ ext) (rest @ keys ext)" by (rule bfs_inv_step)
  qed
  then show ?thesis by (auto simp: connections_def bfs_inv_def)
qed

lemma parent_path_bound:
  assumes ex: "\<forall>u \<in> set (keys cd). explored h cd u"
    and "map_of cd a = Some ra" and "is_path h a p b" and "set p \<subseteq> {CHR ''P''}"
  shows "\<exists>rb. map_of cd b = Some rb \<and> length rb \<le> length ra + length p"
  using assms(2-)
proof (induction p arbitrary: a ra)
  case Nil
  then show ?case by simp
next
  case (Cons c p)
  from Cons.prems(3) have c: "c = CHR ''P''" by simp
  from Cons.prems(2) c obtain obj z where
    z: "h a = Some obj" "z \<in> set (parents obj)" "is_path h z p b"
    by (auto split: option.splits)
  have "a \<in> set (keys cd)" using Cons.prems(1) by (auto simp: map_of_keys)
  with ex have "explored h cd a" by blast
  with z(1,2) Cons.prems(1) have zk: "z \<in> set (keys cd)" "plen cd z \<le> length ra + 1"
    unfolding explored_def by blast+
  from zk(1) obtain rz where rz: "map_of cd z = Some rz" by (auto simp: map_of_keys)
  with zk(2) have l: "length rz \<le> length ra + 1" by (simp add: plen_def)
  from Cons.prems(3) have "set p \<subseteq> {CHR ''P''}" by simp
  from Cons.IH [OF rz z(3) this] obtain rb where
    "map_of cd b = Some rb" "length rb \<le> length rz + length p" by blast
  with l show ?case by auto
qed

lemma connections_facts:
  assumes "wf_store h" and "x \<in> dom h"
  shows "\<exists>cd. connections h x = Some (Inr cd, h) \<and> distinct (keys cd) \<and>
           map_of cd x = Some '''' \<and>
           (\<forall>(y, p) \<in> set cd. valid_path h x p y) \<and>
           (\<forall>u \<in> set (keys cd). explored h cd u)"
proof -
  from connections_returns [OF assms] obtain t where
    a: "connections h x = Some (Inr ((x, '''') # t), h)" "distinct (keys ((x, '''') # t))"
    by blast
  from connections_sound [OF assms] a(1)
  have b: "\<forall>(y, p) \<in> set ((x, '''') # t). is_path h x p y" by simp
  from connections_spouse_steps [OF assms] a(1)
  have c: "\<forall>(y, p) \<in> set ((x, '''') # t). spouse_steps p \<le> 1" by simp
  from connections_explored [OF assms] a(1)
  have d: "\<forall>u \<in> set (keys ((x, '''') # t)). explored h ((x, '''') # t) u" by simp
  have "\<forall>(y, p) \<in> set ((x, '''') # t). valid_path h x p y"
    using b c unfolding valid_path_def by blast
  moreover have "map_of ((x, '''') # t) x = Some ''''" by simp
  ultimately show ?thesis using a d by blast
qed

lemma valid_path_bound:
  assumes ex: "\<forall>u \<in> set (keys cd). explored h cd u"
    and x0: "map_of cd x = Some ''''"
    and sound: "\<forall>(y, p) \<in> set cd. valid_path h x p y"
    and blood: "ancestors_closer_by_blood h x"
    and q: "valid_path h x q y"
  shows "\<exists>r. map_of cd y = Some r \<and> length r \<le> length q"
proof -
  from q have path: "is_path h x q y" and one: "spouse_steps q \<le> 1"
    by (simp_all add: valid_path_def)
  from valid_shape [OF is_path_chars [OF path] one]
  consider "set q \<subseteq> {CHR ''P''}"
    | p1 p2 where "q = p1 @ ''S'' @ p2" "set p1 \<subseteq> {CHR ''P''}" "set p2 \<subseteq> {CHR ''P''}"
    by blast
  then show ?thesis
  proof cases
    case 1
    from parent_path_bound [OF ex x0 path 1] show ?thesis by simp
  next
    case 2
    from path obtain u w where
      u: "is_path h x p1 u" and s: "is_path h u ''S'' w" and w: "is_path h w p2 y"
      unfolding 2(1) is_path_append by blast
    from parent_path_bound [OF ex x0 u 2(2)] obtain ru where
      ru: "map_of cd u = Some ru" "length ru \<le> length p1" by auto
    have anc: "parent_path h x p1 u" using u 2(2) by (simp add: parent_path_def)
    have noS: "CHR ''S'' \<notin> set ru"
    proof
      assume S: "CHR ''S'' \<in> set ru"
      from ru(1) have "(u, ru) \<in> set cd" by (rule map_of_SomeD)
      with sound have "valid_path h x ru u" by blast
      with blood anc S obtain p where p: "parent_path h x p u" "length p < length ru"
        unfolding ancestors_closer_by_blood_def by blast
      from p(1) have "is_path h x p u" "set p \<subseteq> {CHR ''P''}" by (simp_all add: parent_path_def)
      from parent_path_bound [OF ex x0 this] ru(1) have "length ru \<le> length p" by simp
      with p(2) show False by simp
    qed
    from s obtain obj where obj: "h u = Some obj" "spouse obj = Some w"
      by (auto split: option.splits)
    have "u \<in> set (keys cd)" using ru(1) by (auto simp: map_of_keys)
    with ex have "explored h cd u" by blast
    with obj ru(1) noS have wk: "w \<in> set (keys cd)" "plen cd w \<le> length ru + 1"
      unfolding explored_def by blast+
    from wk(1) obtain rw where rw: "map_of cd w = Some rw" by (auto simp: map_of_keys)
    with wk(2) have lw: "length rw \<le> length ru + 1" by (simp add: plen_def)
    from parent_path_bound [OF ex rw w 2(3)] obtain r where
      r: "map_of cd y = Some r" "length r \<le> length rw + length p2" by blast
    have "length q = length p1 + 1 + length p2" unfolding 2(1) by simp
    with r lw ru(2) show ?thesis by auto
  qed
qed

text \<open>
  C1, as the code has it. On a finite closed store \<open>connections\<close> from \<open>x\<close> returns a
  dictionary with distinct keys, in which
  \<^item> the path recorded for a key \<open>y\<close> is a valid path from \<open>x\<close> to \<open>y\<close>;
  \<^item> every ancestor of \<open>x\<close> is a key, with a recorded path no longer than any parent path
    to it;
  \<^item> when the ancestors of \<open>x\<close> are closer by blood, no valid path from \<open>x\<close> to a key is
    shorter than the recorded one, and every individual that a valid path from \<open>x\<close>
    reaches is a key.
\<close>

theorem C1_recorded_paths:
  assumes "wf_store h" and "x \<in> dom h"
  shows "\<exists>cd. connections h x = Some (Inr cd, h) \<and> distinct (keys cd) \<and>
           (\<forall>(y, p) \<in> set cd. valid_path h x p y) \<and>
           (\<forall>y q. parent_path h x q y \<longrightarrow> (\<exists>p. (y, p) \<in> set cd \<and> length p \<le> length q)) \<and>
           (ancestors_closer_by_blood h x \<longrightarrow>
              (\<forall>(y, p) \<in> set cd. \<forall>q. valid_path h x q y \<longrightarrow> length p \<le> length q) \<and>
              (\<forall>y q. valid_path h x q y \<longrightarrow> y \<in> set (keys cd)))"
proof -
  from connections_facts [OF assms] obtain cd where
    c: "connections h x = Some (Inr cd, h)" "distinct (keys cd)" "map_of cd x = Some ''''"
       "\<forall>(y, p) \<in> set cd. valid_path h x p y" "\<forall>u \<in> set (keys cd). explored h cd u"
    by blast
  have anc: "\<exists>p. (y, p) \<in> set cd \<and> length p \<le> length q" if "parent_path h x q y" for y q
  proof -
    from that have "is_path h x q y" "set q \<subseteq> {CHR ''P''}" by (simp_all add: parent_path_def)
    from parent_path_bound [OF c(5,3) this] obtain r where
      "map_of cd y = Some r" "length r \<le> length q" by auto
    then show ?thesis by (auto dest: map_of_SomeD)
  qed
  have full: "(\<forall>(y, p) \<in> set cd. \<forall>q. valid_path h x q y \<longrightarrow> length p \<le> length q) \<and>
              (\<forall>y q. valid_path h x q y \<longrightarrow> y \<in> set (keys cd))"
    if blood: "ancestors_closer_by_blood h x"
  proof (intro conjI ballI allI impI)
    fix e q assume e: "e \<in> set cd"
    obtain y p where yp: "e = (y, p)" by (cases e)
    show "case e of (y, p) \<Rightarrow> \<forall>q. valid_path h x q y \<longrightarrow> length p \<le> length q"
      unfolding yp
    proof (clarify)
      fix q assume "valid_path h x q y"
      from valid_path_bound [OF c(5,3,4) blood this] obtain r where
        r: "map_of cd y = Some r" "length r \<le> length q" by blast
      from c(2) e yp have "map_of cd y = Some p" by (simp add: keys_def)
      with r show "length p \<le> length q" by simp
    qed
  next
    fix y q assume "valid_path h x q y"
    from valid_path_bound [OF c(5,3,4) blood this] show "y \<in> set (keys cd)"
      by (auto simp: map_of_keys)
  qed
  from c(1,2,4) anc full show ?thesis by blast
qed

theorem C1_counterexample:
  "connections six_store ''X'' =
     Some (Inr [(''X'', ''''), (''A'', ''P''), (''W'', ''S''), (''B'', ''PP''), (''Q'', ''SP'')],
           six_store) \<and>
   valid_path six_store ''X'' ''PPPS'' ''R'' \<and>
   ''R'' \<notin> set (keys [(''X'', ''''), (''A'', ''P''), (''W'', ''S''), (''B'', ''PP''), (''Q'', ''SP'')])"
proof -
  have "valid_path six_store ''X'' ''PPPS'' ''R''"
    by (simp add: valid_path_def spouse_steps_def six_store_def)
  with six_connections_X show ?thesis by (simp add: keys_def)
qed

lemma nuclear_store_wf: "wf_store nuclear_store"
  unfolding wf_store_def closed_def
  by (auto simp: nuclear_store_def split: if_splits)

lemma nuclear_spouse_paths:
  assumes "is_path nuclear_store ''C'' q u" and "spouse_steps q \<le> 1" and "CHR ''S'' \<in> set q"
  shows "q = ''PS'' \<and> (u = ''M'' \<or> u = ''F'')"
proof (cases q)
  case Nil
  with assms(3) show ?thesis by simp
next
  case q1: (Cons c1 r1)
  show ?thesis
  proof (cases r1)
    case Nil
    with q1 assms show ?thesis
      by (auto simp: nuclear_store_def split: if_splits)
  next
    case q2: (Cons c2 r2)
    show ?thesis
    proof (cases r2)
      case Nil
      with q1 q2 assms show ?thesis
        by (auto simp: nuclear_store_def spouse_steps_def split: if_splits)
    next
      case q3: (Cons c3 r3)
      with q1 q2 assms(1,2) show ?thesis
        by (auto simp: nuclear_store_def spouse_steps_def split: if_splits)
    qed
  qed
qed

lemma nuclear_blood: "ancestors_closer_by_blood nuclear_store ''C''"
  unfolding ancestors_closer_by_blood_def
proof (intro allI impI)
  fix u q
  assume "valid_path nuclear_store ''C'' q u" and S: "CHR ''S'' \<in> set q"
  then have "is_path nuclear_store ''C'' q u" "spouse_steps q \<le> 1"
    by (simp_all add: valid_path_def)
  from nuclear_spouse_paths [OF this S] have q: "q = ''PS''" and u: "u = ''M'' \<or> u = ''F''"
    by simp_all
  from u have "parent_path nuclear_store ''C'' ''P'' u"
    by (auto simp: parent_path_def nuclear_store_def)
  with q show "\<exists>p. parent_path nuclear_store ''C'' p u \<and> length p < length q"
    by (intro exI [of _ "''P''"]) simp
qed

theorem C1_recorded_paths_witness:
  "wf_store nuclear_store \<and> ''C'' \<in> dom nuclear_store \<and>
   ancestors_closer_by_blood nuclear_store ''C'' \<and>
   valid_path nuclear_store ''C'' ''PS'' ''F'' \<and>
   (\<exists>cd. connections nuclear_store ''C'' = Some (Inr cd, nuclear_store) \<and>
         distinct (keys cd) \<and> ''F'' \<in> set (keys cd))"
proof -
  have c: "''C'' \<in> dom nuclear_store" by (simp add: nuclear_store_def)
  have v: "valid_path nuclear_store ''C'' ''PS'' ''F''"
    by (simp add: valid_path_def spouse_steps_def nuclear_store_def)
  from C1_recorded_paths [OF nuclear_store_wf c] nuclear_blood v
  have "\<exists>cd. connections nuclear_store ''C'' = Some (Inr cd, nuclear_store) \<and>
         distinct (keys cd) \<and> ''F'' \<in> set (keys cd)" by blast
  with nuclear_store_wf c nuclear_blood v show ?thesis by blast
qed

section \<open>The lookup of line 111\<close>

text \<open>
  C2. \<open>relation_to\<close> does resolve a combined code of minimum length
  (\<open>relation_to_minimal_code\<close>), but it does not always return a term or
  \<open>"distant relative"\<close>. In the family of six, \<open>X\<close> and her parent \<open>A\<close> share the keys
  \<open>A\<close>, \<open>B\<close> and \<open>Q\<close>, with the combined codes \<open>"P:"\<close>, \<open>"PP:P"\<close> and \<open>"SP:PP"\<close>. With the
  table \<open>{"P:": {"m": "son"}}\<close> line 110 finds the shortest code \<open>"P:"\<close> in the table and
  line 111 raises \<open>KeyError\<close> on the gender \<open>"f"\<close> of \<open>X\<close>, where the docstring of
  \<open>relation_to\<close> promises \<open>"distant relative"\<close> if there is no kinship term.
\<close>

theorem C2_gender_missing:
  "Family_init six_dataset = Inr six_family \<and> people six_family = six_store \<and>
   connections six_store ''X'' =
     Some (Inr [(''X'', ''''), (''A'', ''P''), (''W'', ''S''), (''B'', ''PP''), (''Q'', ''SP'')],
           six_store) \<and>
   connections six_store ''A'' =
     Some (Inr [(''A'', ''''), (''B'', ''P''), (''Q'', ''PP''), (''R'', ''PPS'')], six_store) \<and>
   map (combined [(''X'', ''''), (''A'', ''P''), (''W'', ''S''), (''B'', ''PP''), (''Q'', ''SP'')]
          [(''A'', ''''), (''B'', ''P''), (''Q'', ''PP''), (''R'', ''PPS'')]) [''A'', ''B'', ''Q''] =
     [''P:'', ''PP:P'', ''SP:PP''] \<and>
   relation_to [''P:'' \<mapsto> [''m'' \<mapsto> ''son'']] six_store ''X'' ''A'' =
     Some (Inl KeyError, six_store)"
proof -
  have "relation_to [''P:'' \<mapsto> [''m'' \<mapsto> ''son'']] six_store ''X'' ''A'' =
     Some (Inl KeyError, six_store)"
    by (simp add: relation_to_def six_connections_X six_connections_A six_resolve_X_A)
       (simp add: lookup_term_def six_store_def)
  with six_connections_X six_connections_A six_family_init show ?thesis
    by (simp add: combined_def six_family_def)
qed

text \<open>
  C10. \<open>relation\<close> of a registered name with itself never returns \<open>None\<close>
  (\<open>relation_to_self\<close>), but its result is not always a term or
  \<open>"distant relative"\<close>. With the table \<open>{":": {"f": "self"}}\<close> and the male \<open>W\<close> of the
  family of six, line 110 finds the code \<open>":"\<close> in the table and line 111 raises
  \<open>KeyError\<close> on the gender, where the docstring of \<open>relation_to\<close> promises
  \<open>"distant relative"\<close> if there is no kinship term.
\<close>

theorem C10_self_gender_missing:
  "Family_init six_dataset = Inr six_family \<and>
   people six_family ''W'' =
     Some \<lparr>name = ''W'', gender = ''m'', parents = [''Q''], spouse = Some ''X''\<rparr> \<and>
   relation ['':'' \<mapsto> [''f'' \<mapsto> ''self'']] six_family ''W'' ''W'' =
     Some (Inl KeyError, six_family)"
  using relation_to_self [OF six_family_wf six_family_W, of "['':'' \<mapsto> [''f'' \<mapsto> ''self'']]"]
    six_family_init six_family_W
  by simp

end
